theory Spec2Isabelle
  imports Main "HOL-Library.Sublist"
begin

section \<open>Strings: the JavaScript operations the sources use\<close>

text \<open>
  A JavaScript string is a sequence of code units; it is modelled as a \<open>string\<close> (a list of
  characters). \<^verbatim>\<open>s.indexOf(pat)\<close> is the position of the first occurrence of
  \<^verbatim>\<open>pat\<close>, or \<open>-1\<close>, which is \<open>None\<close> here; \<^verbatim>\<open>s.indexOf(pat, from)\<close> searches from
  position \<^verbatim>\<open>from\<close>, clamped to the length of the string.
\<close>

fun indexOf :: "string \<Rightarrow> string \<Rightarrow> nat option" where
  "indexOf pat [] = (if pat = [] then Some 0 else None)"
| "indexOf pat (c # cs) =
     (if prefix pat (c # cs) then Some 0 else map_option Suc (indexOf pat cs))"

definition indexOf_from :: "string \<Rightarrow> string \<Rightarrow> nat \<Rightarrow> nat option" where
  "indexOf_from pat s from =
     (let k = min from (length s) in map_option (\<lambda>i. i + k) (indexOf pat (drop k s)))"

text \<open>
  \<^verbatim>\<open>trimStart\<close> removes leading white space and line terminators: of the code units
  below 256 these are tab, line feed, vertical tab, form feed, carriage return, space and
  the no-break space.
\<close>

definition isWhiteSpace :: "char \<Rightarrow> bool" where
  "isWhiteSpace c \<longleftrightarrow> c \<in> set [CHR 0x09, CHR 0x0A, CHR 0x0B, CHR 0x0C, CHR 0x0D, CHR '' '', CHR 0xA0]"

definition trimStart :: "string \<Rightarrow> string" where
  "trimStart s = dropWhile isWhiteSpace s"

text \<open>A number in a template literal is written in decimal.\<close>

definition digit_char :: "nat \<Rightarrow> char" where
  "digit_char d = ''0123456789'' ! d"

fun digits :: "nat \<Rightarrow> string" where
  "digits n = (if n < 10 then [digit_char n] else digits (n div 10) @ [digit_char (n mod 10)])"

declare digits.simps [simp del]


section \<open>Batch scheduler (\<^verbatim>\<open>batchStrings\<close> in utils.ts)\<close>

text \<open>
  The loop of \<^verbatim>\<open>batchStrings\<close> keeps three mutable variables: the finished
  \<^verbatim>\<open>batches\<close>, the accumulating \<^verbatim>\<open>currentBatch\<close> and its character count
  \<^verbatim>\<open>currentChars\<close>. They are the fields of the loop state; one iteration is
  \<open>batch_step\<close>, the whole loop a left fold, and the final conditional push is
  \<open>batch_finish\<close>. \<^verbatim>\<open>maxItems\<close> and \<^verbatim>\<open>maxChars\<close> are numbers of the caller, modelled
  as integers; \<^verbatim>\<open>s.length\<close> is the number of code units of the string.
\<close>

record batch_state =
  batches :: "string list list"
  currentBatch :: "string list"
  currentChars :: int

definition flush :: "batch_state \<Rightarrow> batch_state" where
  "flush st = \<lparr>batches = batches st @ [currentBatch st], currentBatch = [], currentChars = 0\<rparr>"

definition batch_step :: "int \<Rightarrow> int \<Rightarrow> batch_state \<Rightarrow> string \<Rightarrow> batch_state" where
  "batch_step maxItems maxChars st s =
     (let len = int (length s) in
      if len > maxChars then
        (let st1 = (if length (currentBatch st) > 0 then flush st else st)
         in st1\<lparr>batches := batches st1 @ [[s]]\<rparr>)
      else
        (let st1 = (if int (length (currentBatch st)) \<ge> maxItems \<or> currentChars st + len > maxChars
                    then flush st else st)
         in st1\<lparr>currentBatch := currentBatch st1 @ [s], currentChars := currentChars st1 + len\<rparr>))"

definition batch_finish :: "batch_state \<Rightarrow> string list list" where
  "batch_finish st = (if length (currentBatch st) > 0 then batches st @ [currentBatch st] else batches st)"

definition batchStrings :: "string list \<Rightarrow> int \<Rightarrow> int \<Rightarrow> string list list" where
  "batchStrings strings maxItems maxChars =
     batch_finish (foldl (batch_step maxItems maxChars)
       \<lparr>batches = [], currentBatch = [], currentChars = 0\<rparr> strings)"

definition countCharacters :: "string list \<Rightarrow> int" where
  "countCharacters strings = foldl (\<lambda>sum s. sum + int (length s)) 0 strings"

text \<open>The postconditions of one batch, and the loop invariant that establishes them.\<close>

definition sum_len :: "string list \<Rightarrow> int" where
  "sum_len b = sum_list (map (\<lambda>s. int (length s)) b)"

definition batch_ok :: "int \<Rightarrow> int \<Rightarrow> string list \<Rightarrow> bool" where
  "batch_ok m c b \<longleftrightarrow>
     b \<noteq> [] \<and> int (length b) \<le> m \<and> (2 \<le> length b \<longrightarrow> sum_len b \<le> c) \<and>
     (\<forall>s\<in>set b. c < int (length s) \<longrightarrow> b = [s])"

definition batch_inv :: "int \<Rightarrow> int \<Rightarrow> batch_state \<Rightarrow> bool" where
  "batch_inv m c st \<longleftrightarrow>
     (\<forall>b\<in>set (batches st). batch_ok m c b) \<and>
     int (length (currentBatch st)) \<le> m \<and>
     currentChars st = sum_len (currentBatch st) \<and>
     (currentBatch st \<noteq> [] \<longrightarrow> sum_len (currentBatch st) \<le> c)"

definition batch_seen :: "batch_state \<Rightarrow> string list" where
  "batch_seen st = concat (batches st) @ currentBatch st"

lemma sum_len_simps [simp]:
  "sum_len [] = 0" "sum_len (s # b) = int (length s) + sum_len b"
  "sum_len (a @ b) = sum_len a + sum_len b"
  by (simp_all add: sum_len_def)

lemma sum_len_nonneg: "0 \<le> sum_len b"
  by (induction b) auto

lemma sum_len_member: "s \<in> set b \<Longrightarrow> int (length s) \<le> sum_len b"
proof (induction b)
  case Nil
  then show ?case by simp
next
  case (Cons x b)
  then show ?case using sum_len_nonneg [of b] by auto
qed

lemma current_batch_ok:
  assumes "batch_inv m c st" and "currentBatch st \<noteq> []"
  shows "batch_ok m c (currentBatch st)"
proof -
  from assms have le: "sum_len (currentBatch st) \<le> c" and len: "int (length (currentBatch st)) \<le> m"
    by (simp_all add: batch_inv_def)
  have "\<not> c < int (length s)" if "s \<in> set (currentBatch st)" for s
    using sum_len_member [OF that] le by linarith
  with assms(2) le len show ?thesis by (auto simp: batch_ok_def)
qed

lemma flush_inv:
  assumes "batch_inv m c st" and "currentBatch st \<noteq> []" and "0 \<le> m"
  shows "batch_inv m c (flush st)"
  using assms current_batch_ok [OF assms(1,2)] by (auto simp: batch_inv_def flush_def)

lemma flush_seen [simp]: "batch_seen (flush st) = batch_seen st"
  by (simp add: batch_seen_def flush_def)

lemma batch_step_seen: "batch_seen (batch_step m c st s) = batch_seen st @ [s]"
  by (simp add: batch_step_def batch_seen_def flush_def Let_def)

lemma batch_step_inv:
  assumes inv: "batch_inv m c st" and m: "1 \<le> m"
  shows "batch_inv m c (batch_step m c st s)"
proof (cases "c < int (length s)")
  case True
  define st1 where "st1 = (if length (currentBatch st) > 0 then flush st else st)"
  have st1: "batch_inv m c st1" "currentBatch st1 = []"
    using inv m flush_inv [of m c st] by (auto simp: st1_def flush_def)
  have "batch_ok m c [s]" using m by (simp add: batch_ok_def)
  with st1 have "batch_inv m c (st1\<lparr>batches := batches st1 @ [[s]]\<rparr>)"
    by (auto simp: batch_inv_def)
  with True show ?thesis by (simp add: batch_step_def st1_def Let_def)
next
  case False
  let ?full = "int (length (currentBatch st)) \<ge> m \<or> currentChars st + int (length s) > c"
  show ?thesis
  proof (cases ?full)
    case True
    from inv have chars: "currentChars st = sum_len (currentBatch st)" by (simp add: batch_inv_def)
    have ne: "currentBatch st \<noteq> []"
    proof
      assume "currentBatch st = []"
      with True chars m False show False by simp
    qed
    from flush_inv [OF inv ne] m have "batch_inv m c (flush st)" by simp
    then have "batch_inv m c ((flush st)\<lparr>currentBatch := [s], currentChars := int (length s)\<rparr>)"
      using m False by (auto simp: batch_inv_def flush_def)
    with True False show ?thesis by (simp add: batch_step_def Let_def flush_def)
  next
    case notfull: False
    from inv notfull False show ?thesis
      by (auto simp: batch_step_def Let_def batch_inv_def)
  qed
qed

lemma foldl_batch_inv:
  "batch_inv m c st \<Longrightarrow> 1 \<le> m \<Longrightarrow> batch_inv m c (foldl (batch_step m c) st ss)"
  by (induction ss arbitrary: st) (simp_all add: batch_step_inv)

lemma foldl_batch_seen:
  "batch_seen (foldl (batch_step m c) st ss) = batch_seen st @ ss"
  by (induction ss arbitrary: st) (simp_all add: batch_step_seen)

lemma batch_inv_init: "0 \<le> m \<Longrightarrow> batch_inv m c \<lparr>batches = [], currentBatch = [], currentChars = 0\<rparr>"
  by (simp add: batch_inv_def)

lemma batch_finish_ok:
  assumes "batch_inv m c st" and "b \<in> set (batch_finish st)"
  shows "batch_ok m c b"
proof (cases "currentBatch st = []")
  case True
  with assms show ?thesis by (auto simp: batch_finish_def batch_inv_def)
next
  case False
  from current_batch_ok [OF assms(1) False] assms show ?thesis
    by (auto simp: batch_finish_def batch_inv_def split: if_splits)
qed

lemma batch_finish_concat: "concat (batch_finish st) = batch_seen st"
  by (simp add: batch_finish_def batch_seen_def)

lemma batchStrings_ok:
  assumes "1 \<le> m" and "b \<in> set (batchStrings ss m c)"
  shows "batch_ok m c b"
proof -
  have "batch_inv m c (foldl (batch_step m c) \<lparr>batches = [], currentBatch = [], currentChars = 0\<rparr> ss)"
    using assms(1) by (intro foldl_batch_inv batch_inv_init) simp_all
  from batch_finish_ok [OF this] assms(2) show ?thesis by (simp add: batchStrings_def)
qed

lemma batchStrings_concat: "concat (batchStrings ss m c) = ss"
proof -
  have "batch_seen \<lparr>batches = [], currentBatch = [], currentChars = 0\<rparr> = []"
    by (simp add: batch_seen_def)
  then show ?thesis
    by (simp add: batchStrings_def batch_finish_concat foldl_batch_seen)
qed

text \<open>
  Claim C4. For every list of strings and all limits \<open>m \<ge> 1\<close> and \<open>c \<ge> 1\<close>, the batches
  returned by \<open>batchStrings strings m c\<close> satisfy: every batch has at most \<open>m\<close> items; the
  lengths of a batch of two or more items sum to at most \<open>c\<close>; a string longer than \<open>c\<close>
  is the only item of its batch; and the batches concatenated in order are the input.
\<close>

theorem batchStrings_postconditions:
  assumes "1 \<le> m" and "1 \<le> c"
  shows "(\<forall>b\<in>set (batchStrings ss m c). int (length b) \<le> m) \<and>
         (\<forall>b\<in>set (batchStrings ss m c). 2 \<le> length b \<longrightarrow> sum_len b \<le> c) \<and>
         (\<forall>b\<in>set (batchStrings ss m c). \<forall>s\<in>set b. c < int (length s) \<longrightarrow> b = [s]) \<and>
         concat (batchStrings ss m c) = ss"
  using batchStrings_ok [OF assms(1)] batchStrings_concat by (simp add: batch_ok_def)

theorem batchStrings_postconditions_witness:
  "batchStrings [''hello'', ''world'', ''foo'', ''a much longer string''] 50 8
     = [[''hello''], [''world'', ''foo''], [''a much longer string'']] \<and>
   list_all (\<lambda>b. int (length b) \<le> 50)
     (batchStrings [''hello'', ''world'', ''foo'', ''a much longer string''] 50 8) \<and>
   concat (batchStrings [''hello'', ''world'', ''foo'', ''a much longer string''] 50 8)
     = [''hello'', ''world'', ''foo'', ''a much longer string'']"
proof -
  have ev: "batchStrings [''hello'', ''world'', ''foo'', ''a much longer string''] 50 8
     = [[''hello''], [''world'', ''foo''], [''a much longer string'']]"
    by (simp add: batchStrings_def batch_step_def batch_finish_def flush_def Let_def)
  from batchStrings_postconditions [of 50 8 "[''hello'', ''world'', ''foo'', ''a much longer string'']"]
  show ?thesis unfolding ev by (simp add: list_all_iff)
qed

text \<open>
  Claim C10. For every list of strings, every \<open>maxItems \<ge> 1\<close> and every \<open>maxChars \<ge> 0\<close>, no
  batch returned by \<open>batchStrings\<close> is empty.
\<close>

theorem batchStrings_nonempty:
  assumes "1 \<le> maxItems" and "0 \<le> maxChars"
  shows "\<forall>b\<in>set (batchStrings strings maxItems maxChars). b \<noteq> []"
  using batchStrings_ok [OF assms(1)] by (simp add: batch_ok_def)

theorem batchStrings_nonempty_witness:
  "(1::int) \<le> 2 \<and> (0::int) \<le> 0 \<and> batchStrings [''a'', [], ''bc''] 2 0 = [[''a''], [[]], [''bc'']]
    \<and> list_all (\<lambda>b. b \<noteq> []) (batchStrings [''a'', [], ''bc''] 2 0)"
proof -
  have ev: "batchStrings [''a'', [], ''bc''] 2 0 = [[''a''], [[]], [''bc'']]"
    by (simp add: batchStrings_def batch_step_def batch_finish_def flush_def Let_def)
  from batchStrings_nonempty [of 2 0 "[''a'', [], ''bc'']"]
  show ?thesis unfolding ev by (simp add: list_all_iff)
qed

section \<open>Markdown codec (formats/markdown.ts)\<close>

record MarkdownFile =
  frontmatter :: "string option"
  body :: string

definition splitMarkdown :: "string \<Rightarrow> MarkdownFile" where
  "splitMarkdown content =
     (let trimmed = trimStart content in
      if \<not> prefix ''---'' trimmed then \<lparr>frontmatter = None, body = content\<rparr>
      else
        (case indexOf_from (CHR 0x0A # ''---'') trimmed 3 of
           None \<Rightarrow> \<lparr>frontmatter = None, body = content\<rparr>
         | Some endIndex \<Rightarrow>
             \<lparr>frontmatter = Some (take (endIndex + 4) trimmed),
              body = drop (endIndex + 4) trimmed\<rparr>))"

text \<open>\<^verbatim>\<open>!frontmatter\<close> holds for \<^verbatim>\<open>null\<close> and for the empty string.\<close>

definition assembleMarkdown :: "string option \<Rightarrow> string \<Rightarrow> string" where
  "assembleMarkdown fm translatedBody =
     (case fm of
        None \<Rightarrow> translatedBody
      | Some f \<Rightarrow> if f = [] then translatedBody else f @ translatedBody)"


subsection \<open>Round trip of split and assemble\<close>

lemma splitMarkdown_parts:
  "(case frontmatter (splitMarkdown x) of None \<Rightarrow> [] | Some f \<Rightarrow> f) @ body (splitMarkdown x) =
     (if frontmatter (splitMarkdown x) = None then x else trimStart x)"
  by (simp add: splitMarkdown_def Let_def split: option.splits)

text \<open>
  Claim C2, as the code has it. With \<open>r = splitMarkdown x\<close>: when no frontmatter is found,
  \<open>assembleMarkdown (frontmatter r) (body r)\<close> is \<open>x\<close>, byte for byte; when a frontmatter block
  is found, it is \<open>x\<close> without its leading white space (both parts are cut from the trimmed
  content, and nothing between them is lost).
\<close>

theorem assemble_split:
  "assembleMarkdown (frontmatter (splitMarkdown x)) (body (splitMarkdown x)) =
     (if frontmatter (splitMarkdown x) = None then x else trimStart x)"
  by (simp add: splitMarkdown_def assembleMarkdown_def Let_def split: option.splits)

theorem assemble_split_witness:
  "frontmatter (splitMarkdown (''  ---'' @ CHR 0x0A # ''a: b'' @ CHR 0x0A # ''--- body'')) \<noteq> None \<and>
   assembleMarkdown
     (frontmatter (splitMarkdown (''  ---'' @ CHR 0x0A # ''a: b'' @ CHR 0x0A # ''--- body'')))
     (body (splitMarkdown (''  ---'' @ CHR 0x0A # ''a: b'' @ CHR 0x0A # ''--- body'')))
   = ''---'' @ CHR 0x0A # ''a: b'' @ CHR 0x0A # ''--- body''"
proof -
  have fm: "frontmatter (splitMarkdown (''  ---'' @ CHR 0x0A # ''a: b'' @ CHR 0x0A # ''--- body'')) \<noteq> None"
    by (simp add: splitMarkdown_def trimStart_def isWhiteSpace_def indexOf_from_def Let_def)
  have tr: "trimStart (''  ---'' @ CHR 0x0A # ''a: b'' @ CHR 0x0A # ''--- body'')
      = ''---'' @ CHR 0x0A # ''a: b'' @ CHR 0x0A # ''--- body''"
    by (simp add: trimStart_def isWhiteSpace_def)
  from assemble_split [of "''  ---'' @ CHR 0x0A # ''a: b'' @ CHR 0x0A # ''--- body''"] fm tr
  show ?thesis by simp
qed

text \<open>
  The claim as stated fails on a document whose frontmatter follows leading white space:
  the white space is dropped.
\<close>

theorem assemble_split_counterexample:
  "assembleMarkdown
     (frontmatter (splitMarkdown (CHR 0x0A # ''---'' @ CHR 0x0A # ''a'' @ CHR 0x0A # ''---'')))
     (body (splitMarkdown (CHR 0x0A # ''---'' @ CHR 0x0A # ''a'' @ CHR 0x0A # ''---'')))
   \<noteq> CHR 0x0A # ''---'' @ CHR 0x0A # ''a'' @ CHR 0x0A # ''---''"
  by (simp add: splitMarkdown_def assembleMarkdown_def trimStart_def isWhiteSpace_def
      indexOf_from_def Let_def)

section \<open>JSON codec, diff and merge (formats/json.ts)\<close>

text \<open>
  A parsed document is a JSON value. An object is the list of its own properties in
  enumeration order, which is what \<^verbatim>\<open>Object.entries\<close> returns; an object of the program
  has no key twice. The payload of a number is never inspected. \<^verbatim>\<open>flattenJson\<close> iterates
  over the entries of an object and dispatches on the type of each value; the dispatch is
  \<open>flatten_value\<close>, called with the \<^verbatim>\<open>fullKey\<close> of the entry.
\<close>

datatype json =
    JString string
  | JNumber int
  | JBool bool
  | JNull
  | JArray "json list"
  | JObject "(string \<times> json) list"

record FlatEntry =
  key :: string
  "value" :: string

fun flatten_value :: "json \<Rightarrow> string \<Rightarrow> FlatEntry list"
  and flattenJson :: "(string \<times> json) list \<Rightarrow> string \<Rightarrow> FlatEntry list" where
  "flatten_value (JString s) fullKey = [\<lparr>key = fullKey, value = s\<rparr>]"
| "flatten_value (JObject obj) fullKey = flattenJson obj fullKey"
| "flatten_value (JNumber n) fullKey = []"
| "flatten_value (JBool b) fullKey = []"
| "flatten_value JNull fullKey = []"
| "flatten_value (JArray xs) fullKey = []"
| "flattenJson [] pre = []"
| "flattenJson ((k, v) # rest) pre =
     flatten_value v (if pre \<noteq> [] then pre @ ''.'' @ k else k) @ flattenJson rest pre"

subsection \<open>The built-in Map\<close>

text \<open>
  A \<^verbatim>\<open>Map\<close> is the list of its entries in insertion order. \<^verbatim>\<open>set\<close> replaces the value
  of a key that is present, in place, and appends a new key; \<^verbatim>\<open>new Map(pairs)\<close> sets the
  pairs one after the other.
\<close>

fun map_set :: "'k \<Rightarrow> 'v \<Rightarrow> ('k \<times> 'v) list \<Rightarrow> ('k \<times> 'v) list" where
  "map_set k v [] = [(k, v)]"
| "map_set k v ((k', v') # m) = (if k' = k then (k, v) # m else (k', v') # map_set k v m)"

definition new_Map :: "('k \<times> 'v) list \<Rightarrow> ('k \<times> 'v) list" where
  "new_Map pairs = foldl (\<lambda>m (k, v). map_set k v m) [] pairs"

definition map_has :: "'k \<Rightarrow> ('k \<times> 'v) list \<Rightarrow> bool" where
  "map_has k m \<longleftrightarrow> k \<in> set (map fst m)"

definition map_get :: "'k \<Rightarrow> ('k \<times> 'v) list \<Rightarrow> 'v option" where
  "map_get k m = map_of m k"

subsection \<open>Unflatten\<close>

text \<open>
  \<^verbatim>\<open>unflattenJson\<close> builds its result from a fresh object and stores only strings and
  fresh objects in it, so the tree it works on is a string-leaf document: a value of
  \<open>doc\<close>, with \<open>json_of\<close> its reading as a JSON value. On such a tree
  \<^verbatim>\<open>typeof current[part] !== "object"\<close> holds exactly for a string.

  One iteration of the outer loop is \<open>set_path\<close>, on the parts of the key. The functional
  update keeps the position of a key that is present and appends a new key, as assignment
  to a property does (JavaScript enumerates a key that is an array index before the other
  keys wherever it was created; a document read in enumeration order is rebuilt in that
  order either way). The name \<^verbatim>\<open>__proto__\<close> is not a property: \<^verbatim>\<open>"__proto__" in current\<close>
  holds for every object and \<^verbatim>\<open>typeof current["__proto__"]\<close> is \<^verbatim>\<open>"object"\<close>, so the inner
  loop follows it to the shared prototype and writes there, outside the document (the result
  \<open>None\<close>); assigning a string to \<^verbatim>\<open>current["__proto__"]\<close> changes nothing.
  \<^verbatim>\<open>split\<close> never returns an empty list, so the first equation of \<open>set_path\<close> is
  never used.
\<close>

datatype doc = Str string | Obj "(string \<times> doc) list"

fun json_of :: "doc \<Rightarrow> json" where
  "json_of (Str s) = JString s"
| "json_of (Obj kids) = JObject (map (\<lambda>(k, d). (k, json_of d)) kids)"

definition json_fields :: "(string \<times> doc) list \<Rightarrow> (string \<times> json) list" where
  "json_fields kids = map (\<lambda>(k, d). (k, json_of d)) kids"

fun split_on :: "char \<Rightarrow> string \<Rightarrow> string list" where
  "split_on d [] = [[]]"
| "split_on d (c # cs) =
     (let ps = split_on d cs in if c = d then [] # ps else (c # hd ps) # tl ps)"

definition child_object :: "(string \<times> doc) list \<Rightarrow> string \<Rightarrow> (string \<times> doc) list" where
  "child_object current part =
     (case map_of current part of
        Some (Obj kids) \<Rightarrow> kids
      | _ \<Rightarrow> [])"

fun set_path :: "string list \<Rightarrow> string \<Rightarrow> (string \<times> doc) list \<Rightarrow> (string \<times> doc) list option" where
  "set_path [] v current = Some current"
| "set_path [lastPart] v current =
     Some (if lastPart = ''__proto__'' then current else map_set lastPart (Str v) current)"
| "set_path (part # rest) v current =
     (if part = ''__proto__'' then None
      else map_option (\<lambda>kids. map_set part (Obj kids) current)
             (set_path rest v (child_object current part)))"

definition unflatten_step :: "(string \<times> doc) list option \<Rightarrow> FlatEntry \<Rightarrow> (string \<times> doc) list option" where
  "unflatten_step acc e =
     (case acc of
        None \<Rightarrow> None
      | Some root \<Rightarrow> set_path (split_on CHR ''.'' (key e)) (value e) root)"

definition unflattenJson :: "FlatEntry list \<Rightarrow> (string \<times> doc) list option" where
  "unflattenJson entries = foldl unflatten_step (Some []) entries"

subsection \<open>Diff and merge\<close>

definition computeDiff :: "FlatEntry list \<Rightarrow> (string \<times> json) list option \<Rightarrow> FlatEntry list" where
  "computeDiff sourceEntries existingTarget =
     (case existingTarget of
        None \<Rightarrow> sourceEntries
      | Some target \<Rightarrow>
          (let existingFlat = new_Map (map (\<lambda>e. (key e, value e)) (flattenJson target []))
           in filter (\<lambda>entry. \<not> map_has (key entry) existingFlat) sourceEntries))"

definition mergeTranslations ::
  "FlatEntry list \<Rightarrow> (string \<times> string) list \<Rightarrow> (string \<times> json) list option
     \<Rightarrow> (string \<times> doc) list option" where
  "mergeTranslations sourceEntries translated existingTarget =
     (let existingFlat =
            (case existingTarget of
               Some target \<Rightarrow> new_Map (map (\<lambda>e. (key e, value e)) (flattenJson target []))
             | None \<Rightarrow> []);
          merged = map (\<lambda>entry.
            \<lparr>key = key entry,
             value = (case map_get (key entry) translated of
                        Some t \<Rightarrow> t
                      | None \<Rightarrow> (case map_get (key entry) existingFlat of
                                   Some x \<Rightarrow> x
                                 | None \<Rightarrow> value entry))\<rparr>) sourceEntries
      in unflattenJson merged)"


subsection \<open>Specification side: string leaves, paths and well-formed keys\<close>

text \<open>
  \<open>string_leaves\<close> is the depth-first, object-key-order list of the string leaves of a
  document, each with its path. \<open>keys_ok\<close> says that no key met on the way has a dot and
  that the keys of every nested object are distinct; \<open>root_ok\<close> that the root holds no
  object under the empty key (\<^verbatim>\<open>flattenJson\<close> takes an empty \<^verbatim>\<open>prefix\<close> for no prefix);
  \<open>proto_free\<close> that no key met on the way is \<^verbatim>\<open>__proto__\<close>.
\<close>

fun dotted :: "string list \<Rightarrow> string" where
  "dotted [] = []"
| "dotted [k] = k"
| "dotted (k # p) = k @ ''.'' @ dotted p"

fun leaves_value :: "string \<Rightarrow> json \<Rightarrow> (string list \<times> string) list"
  and string_leaves :: "(string \<times> json) list \<Rightarrow> (string list \<times> string) list" where
  "leaves_value k (JString s) = [([k], s)]"
| "leaves_value k (JObject obj) = map (\<lambda>(p, s). (k # p, s)) (string_leaves obj)"
| "leaves_value k (JNumber n) = []"
| "leaves_value k (JBool b) = []"
| "leaves_value k JNull = []"
| "leaves_value k (JArray xs) = []"
| "string_leaves [] = []"
| "string_leaves ((k, v) # rest) = leaves_value k v @ string_leaves rest"

definition dot_free :: "string \<Rightarrow> bool" where
  "dot_free k \<longleftrightarrow> CHR ''.'' \<notin> set k"

fun keys_ok_value :: "json \<Rightarrow> bool"
  and keys_ok :: "(string \<times> json) list \<Rightarrow> bool" where
  "keys_ok_value (JObject obj) = (distinct (map fst obj) \<and> keys_ok obj)"
| "keys_ok_value (JString s) = True"
| "keys_ok_value (JNumber n) = True"
| "keys_ok_value (JBool b) = True"
| "keys_ok_value JNull = True"
| "keys_ok_value (JArray xs) = True"
| "keys_ok [] = True"
| "keys_ok ((k, v) # rest) =
     (dot_free k \<and> keys_ok_value v \<and> keys_ok rest)"

fun is_object :: "json \<Rightarrow> bool" where
  "is_object (JObject obj) = True"
| "is_object v = False"

definition root_ok :: "(string \<times> json) list \<Rightarrow> bool" where
  "root_ok obj = list_all (\<lambda>(k, v). k = [] \<longrightarrow> \<not> is_object v) obj"

definition good_keys :: "(string \<times> json) list \<Rightarrow> bool" where
  "good_keys obj \<longleftrightarrow> distinct (map fst obj) \<and> keys_ok obj \<and> root_ok obj"

fun proto_free_value :: "json \<Rightarrow> bool"
  and proto_free :: "(string \<times> json) list \<Rightarrow> bool" where
  "proto_free_value (JObject obj) = proto_free obj"
| "proto_free_value (JString s) = True"
| "proto_free_value (JNumber n) = True"
| "proto_free_value (JBool b) = True"
| "proto_free_value JNull = True"
| "proto_free_value (JArray xs) = True"
| "proto_free [] = True"
| "proto_free ((k, v) # rest) = (k \<noteq> ''__proto__'' \<and> proto_free_value v \<and> proto_free rest)"

definition with_prefix :: "string \<Rightarrow> string \<Rightarrow> string" where
  "with_prefix pre k = (if pre \<noteq> [] then pre @ ''.'' @ k else k)"

text \<open>
  For the round trip: \<open>put\<close> is \<open>set_path\<close> on a path without \<^verbatim>\<open>__proto__\<close>;
  \<open>doc_leaves\<close> lists the leaves of a string-leaf document with their paths.
\<close>

fun put :: "string list \<Rightarrow> string \<Rightarrow> (string \<times> doc) list \<Rightarrow> (string \<times> doc) list" where
  "put [] v current = current"
| "put [lastPart] v current = map_set lastPart (Str v) current"
| "put (part # rest) v current = map_set part (Obj (put rest v (child_object current part))) current"

fun doc_leaves :: "(string \<times> doc) list \<Rightarrow> (string list \<times> string) list" where
  "doc_leaves [] = []"
| "doc_leaves ((k, Str s) # rest) = ([k], s) # doc_leaves rest"
| "doc_leaves ((k, Obj kids) # rest) = map (\<lambda>(p, s). (k # p, s)) (doc_leaves kids) @ doc_leaves rest"

fun no_empty_objects :: "(string \<times> doc) list \<Rightarrow> bool" where
  "no_empty_objects [] = True"
| "no_empty_objects ((k, Str s) # rest) = no_empty_objects rest"
| "no_empty_objects ((k, Obj kids) # rest) = (kids \<noteq> [] \<and> no_empty_objects kids \<and> no_empty_objects rest)"

text \<open>
  The value the specification gives a source entry: the translated value if the key is in
  the translated map, otherwise the value the flattened existing target has for the key,
  otherwise the value of the source entry.
\<close>

definition existing_value :: "(string \<times> json) list option \<Rightarrow> string \<Rightarrow> string option" where
  "existing_value existingTarget k =
     (case existingTarget of
        None \<Rightarrow> None
      | Some target \<Rightarrow> map_of (rev (map (\<lambda>e. (key e, value e)) (flattenJson target []))) k)"

definition merged_value ::
  "(string \<times> string) list \<Rightarrow> (string \<times> json) list option \<Rightarrow> FlatEntry \<Rightarrow> string" where
  "merged_value translated existingTarget e =
     (case map_of translated (key e) of
        Some t \<Rightarrow> t
      | None \<Rightarrow> (case existing_value existingTarget (key e) of Some x \<Rightarrow> x | None \<Rightarrow> value e))"

text \<open>
  The document the specification asks of the merge, read off the source document:
  \<open>relabel g path obj\<close> keeps the objects of \<open>obj\<close> nested as they are and its keys in their
  order, gives the string leaf at dotted key \<open>k\<close> with value \<open>s\<close> the value \<open>g k s\<close>, and leaves
  out every leaf that is not a string and every object without a string leaf (the flat
  entries carry neither). \<open>merged_document\<close> is that document for the merged values.
\<close>

fun relabel_value :: "(string \<Rightarrow> string \<Rightarrow> string) \<Rightarrow> string list \<Rightarrow> string \<Rightarrow> json \<Rightarrow> (string \<times> doc) list"
  and relabel :: "(string \<Rightarrow> string \<Rightarrow> string) \<Rightarrow> string list \<Rightarrow> (string \<times> json) list \<Rightarrow> (string \<times> doc) list" where
  "relabel_value g path k (JString s) = [(k, Str (g (dotted (path @ [k])) s))]"
| "relabel_value g path k (JObject obj) =
     (let c = relabel g (path @ [k]) obj in if c = [] then [] else [(k, Obj c)])"
| "relabel_value g path k (JNumber n) = []"
| "relabel_value g path k (JBool b) = []"
| "relabel_value g path k JNull = []"
| "relabel_value g path k (JArray xs) = []"
| "relabel g path [] = []"
| "relabel g path ((k, v) # rest) = relabel_value g path k v @ relabel g path rest"

definition merged_document ::
  "(string \<times> string) list \<Rightarrow> (string \<times> json) list option \<Rightarrow> (string \<times> json) list \<Rightarrow> (string \<times> doc) list" where
  "merged_document translated existingTarget source =
     relabel (\<lambda>k s. merged_value translated existingTarget \<lparr>key = k, value = s\<rparr>) [] source"

subsection \<open>Flatten: string leaves in traversal order\<close>

lemma leaves_paths_nonempty:
  "(p, s) \<in> set (leaves_value k v) \<Longrightarrow> p \<noteq> []"
  "(p, s) \<in> set (string_leaves obj) \<Longrightarrow> p \<noteq> []"
  by (induction k v and obj arbitrary: p s and p s rule: leaves_value_string_leaves.induct) auto

lemma dotted_Cons: "p \<noteq> [] \<Longrightarrow> dotted (k # p) = k @ ''.'' @ dotted p"
  by (cases p) simp_all

lemma flatten_values:
  "map value (flatten_value v fullKey) = map snd (leaves_value k v)"
  "map value (flattenJson obj pre) = map snd (string_leaves obj)"
  by (induction v fullKey and obj pre arbitrary: k rule: flatten_value_flattenJson.induct)
     (auto simp: case_prod_unfold comp_def)


lemma with_prefix_dotted_Cons:
  "p \<noteq> [] \<Longrightarrow> with_prefix pre k \<noteq> [] \<Longrightarrow>
     with_prefix (with_prefix pre k) (dotted p) = with_prefix pre (dotted (k # p))"
  by (simp add: with_prefix_def dotted_Cons)

lemma flatten_as_leaves:
  "fullKey = with_prefix pre k \<Longrightarrow> (is_object v \<longrightarrow> fullKey \<noteq> []) \<Longrightarrow>
     flatten_value v fullKey =
       map (\<lambda>(p, s). \<lparr>key = with_prefix pre (dotted p), value = s\<rparr>) (leaves_value k v)"
  "(pre' = [] \<longrightarrow> root_ok obj) \<Longrightarrow>
     flattenJson obj pre' =
       map (\<lambda>(p, s). \<lparr>key = with_prefix pre' (dotted p), value = s\<rparr>) (string_leaves obj)"
proof (induction v fullKey and obj pre' arbitrary: pre k rule: flatten_value_flattenJson.induct)
  case (2 obj fullKey)
  then have ne: "fullKey \<noteq> []" by simp
  have "flattenJson obj fullKey =
      map (\<lambda>(p, s). \<lparr>key = with_prefix fullKey (dotted p), value = s\<rparr>) (string_leaves obj)"
    using "2.IH" ne by simp
  also have "\<dots> = map (\<lambda>(p, s). \<lparr>key = with_prefix pre (dotted (k # p)), value = s\<rparr>) (string_leaves obj)"
  proof (rule map_cong [OF refl])
    fix x assume "x \<in> set (string_leaves obj)"
    then have "fst x \<noteq> []" using leaves_paths_nonempty(2) [of "fst x" "snd x" obj] by simp
    then show "(case x of (p, s) \<Rightarrow> \<lparr>key = with_prefix fullKey (dotted p), value = s\<rparr>) =
               (case x of (p, s) \<Rightarrow> \<lparr>key = with_prefix pre (dotted (k # p)), value = s\<rparr>)"
      using with_prefix_dotted_Cons [of "fst x" pre k] ne "2.prems"(1)
      by (simp add: case_prod_unfold)
  qed
  finally show ?case by (simp add: comp_def case_prod_unfold)
next
  case (8 k v rest pre')
  have root: "pre' = [] \<longrightarrow> root_ok rest" and hd: "pre' = [] \<longrightarrow> (k = [] \<longrightarrow> \<not> is_object v)"
    using "8.prems" by (auto simp: root_ok_def)
  have full: "(if pre' \<noteq> [] then pre' @ ''.'' @ k else k) = with_prefix pre' k"
    by (simp add: with_prefix_def)
  have obj: "is_object v \<longrightarrow> with_prefix pre' k \<noteq> []"
    using hd by (auto simp: with_prefix_def)
  show ?case
    using "8.IH"(1) [OF full] obj "8.IH"(2) [OF root] full by simp
qed (simp_all add: with_prefix_def)

lemma flattenJson_root:
  "root_ok obj \<Longrightarrow>
     flattenJson obj [] = map (\<lambda>(p, s). \<lparr>key = dotted p, value = s\<rparr>) (string_leaves obj)"
  using flatten_as_leaves(2) [of "[]" obj] by (simp add: with_prefix_def)

lemma leaves_heads:
  "(p, s) \<in> set (leaves_value k v) \<Longrightarrow> hd p = k"
  "(p, s) \<in> set (string_leaves obj) \<Longrightarrow> hd p \<in> fst ` set obj"
  by (induction k v and obj arbitrary: p s and p s rule: leaves_value_string_leaves.induct)
     (auto simp: image_iff)

lemma distinct_map_Cons: "distinct (map ((#) k) ps) = distinct ps"
  by (simp add: distinct_map inj_on_def)

lemma leaves_distinct:
  "keys_ok_value v \<Longrightarrow> distinct (map fst (leaves_value k v))"
  "distinct (map fst obj) \<Longrightarrow> keys_ok obj \<Longrightarrow> distinct (map fst (string_leaves obj))"
proof (induction k v and obj rule: leaves_value_string_leaves.induct)
  case (2 k obj)
  then have "distinct (map fst (string_leaves obj))" by simp
  then have "distinct (map ((#) k) (map fst (string_leaves obj)))"
    by (simp only: distinct_map_Cons)
  moreover have "map fst (leaves_value k (JObject obj)) = map ((#) k) (map fst (string_leaves obj))"
    by (simp add: comp_def case_prod_unfold)
  ultimately show ?case by (simp only:)
next
  case (8 k v rest)
  have d1: "distinct (map fst (leaves_value k v))" and d2: "distinct (map fst (string_leaves rest))"
    using 8 by simp_all
  have "fst ` set (leaves_value k v) \<inter> fst ` set (string_leaves rest) = {}"
  proof (rule ccontr)
    assume "fst ` set (leaves_value k v) \<inter> fst ` set (string_leaves rest) \<noteq> {}"
    then obtain p s s' where a: "(p, s) \<in> set (leaves_value k v)" and b: "(p, s') \<in> set (string_leaves rest)"
      by force
    from leaves_heads(1) [OF a] leaves_heads(2) [OF b] "8.prems"(1) show False by auto
  qed
  with d1 d2 show ?case by simp
qed simp_all

lemma leaves_segments:
  "dot_free k \<Longrightarrow> keys_ok_value v \<Longrightarrow> (p, s) \<in> set (leaves_value k v) \<Longrightarrow> list_all dot_free p"
  "keys_ok obj \<Longrightarrow> (p, s) \<in> set (string_leaves obj) \<Longrightarrow> list_all dot_free p"
  by (induction k v and obj arbitrary: p s and p s rule: leaves_value_string_leaves.induct) auto

lemma leaves_no_proto:
  "k \<noteq> ''__proto__'' \<Longrightarrow> proto_free_value v \<Longrightarrow> (p, s) \<in> set (leaves_value k v) \<Longrightarrow>
     ''__proto__'' \<notin> set p"
  "proto_free obj \<Longrightarrow> (p, s) \<in> set (string_leaves obj) \<Longrightarrow> ''__proto__'' \<notin> set p"
  by (induction k v and obj arbitrary: p s and p s rule: leaves_value_string_leaves.induct) auto

lemma split_on_nonempty: "split_on d s \<noteq> []"
  by (induction s) (simp_all add: Let_def)

lemma split_on_no_delim: "d \<notin> set s \<Longrightarrow> split_on d s = [s]"
  by (induction s) (auto simp: Let_def)

lemma split_on_append: "d \<notin> set s \<Longrightarrow> split_on d (s @ d # r) = s # split_on d r"
  by (induction s) (auto simp: Let_def)

lemma split_on_dotted:
  "p \<noteq> [] \<Longrightarrow> list_all dot_free p \<Longrightarrow> split_on CHR ''.'' (dotted p) = p"
proof (induction p rule: dotted.induct)
  case (3 k q qs)
  then have "split_on CHR ''.'' (dotted (q # qs)) = q # qs" by simp
  with 3 show ?case using split_on_append [of "CHR ''.''" k "dotted (q # qs)"]
    by (simp add: dot_free_def)
qed (simp_all add: split_on_no_delim dot_free_def)

lemma flattenJson_keys_distinct:
  assumes "good_keys obj"
  shows "distinct (map key (flattenJson obj []))"
proof -
  from assms have d: "distinct (map fst obj)" and k: "keys_ok obj" and r: "root_ok obj"
    by (simp_all add: good_keys_def)
  have dp: "distinct (map fst (string_leaves obj))" using leaves_distinct(2) [OF d k] .
  have inj: "inj_on dotted (fst ` set (string_leaves obj))"
  proof (rule inj_on_inverseI [where g = "split_on CHR ''.''"])
    fix p assume "p \<in> fst ` set (string_leaves obj)"
    then obtain s where m: "(p, s) \<in> set (string_leaves obj)" by auto
    from leaves_paths_nonempty(2) [OF m] leaves_segments(2) [OF k m]
    show "split_on CHR ''.'' (dotted p) = p" by (rule split_on_dotted)
  qed
  have "distinct (map dotted (map fst (string_leaves obj)))"
    using dp inj by (simp only: distinct_map set_map)
  moreover have "map key (flattenJson obj []) = map dotted (map fst (string_leaves obj))"
    by (simp add: flattenJson_root [OF r] comp_def case_prod_unfold)
  ultimately show ?thesis by (simp only:)
qed


text \<open>
  Claim C9, as the code has it. For every document, \<open>flattenJson\<close> emits the values of the
  string leaves, and only those, in depth-first object-key order. The emitted key is the
  dotted path of the leaf unless the empty key holds an object at the root, and the keys
  are pairwise distinct when, in addition, the keys of every object visited are distinct
  and contain no dot.
\<close>

theorem flattenJson_string_leaves:
  "map value (flattenJson obj []) = map snd (string_leaves obj) \<and>
   (root_ok obj \<longrightarrow> map key (flattenJson obj []) = map (\<lambda>(p, s). dotted p) (string_leaves obj)) \<and>
   (good_keys obj \<longrightarrow> distinct (map key (flattenJson obj [])))"
  by (simp add: flatten_values(2) flattenJson_root flattenJson_keys_distinct comp_def case_prod_unfold)

theorem flattenJson_string_leaves_witness:
  "good_keys [(''nav'', JObject [(''home'', JString ''Home''), (''n'', JNumber 3)]),
              (''tags'', JArray [JString ''x'']), (''title'', JString ''T'')] \<and>
   flattenJson [(''nav'', JObject [(''home'', JString ''Home''), (''n'', JNumber 3)]),
                (''tags'', JArray [JString ''x'']), (''title'', JString ''T'')] []
     = [\<lparr>key = ''nav.home'', value = ''Home''\<rparr>, \<lparr>key = ''title'', value = ''T''\<rparr>] \<and>
   distinct (map key (flattenJson [(''nav'', JObject [(''home'', JString ''Home''), (''n'', JNumber 3)]),
                (''tags'', JArray [JString ''x'']), (''title'', JString ''T'')] []))"
proof -
  let ?d = "[(''nav'', JObject [(''home'', JString ''Home''), (''n'', JNumber 3)]),
              (''tags'', JArray [JString ''x'']), (''title'', JString ''T'')]"
  have g: "good_keys ?d" by (simp add: good_keys_def root_ok_def dot_free_def)
  have f: "flattenJson ?d [] = [\<lparr>key = ''nav.home'', value = ''Home''\<rparr>, \<lparr>key = ''title'', value = ''T''\<rparr>]"
    by simp
  from flattenJson_string_leaves [of ?d] g have "distinct (map key (flattenJson ?d []))" by blast
  with g f show ?thesis by blast
qed

text \<open>
  Stated for every document, the uniqueness of the keys fails: a key that contains a dot
  collides with the path of a nested leaf.
\<close>

theorem flattenJson_keys_counterexample:
  "\<not> distinct (map key (flattenJson
      [(''a.b'', JString ''x''), (''a'', JObject [(''b'', JString ''y'')])] []))"
  by simp

subsection \<open>Diff\<close>

lemma map_set_keys: "fst ` set (map_set k v m) = insert k (fst ` set m)"
  by (induction k v m rule: map_set.induct) (simp_all add: insert_commute)

lemma map_of_map_set: "map_of (map_set k v m) = (map_of m)(k \<mapsto> v)"
  by (induction m) (auto simp: fun_eq_iff)

lemma foldl_map_set_keys:
  "fst ` set (foldl (\<lambda>m (k, v). map_set k v m) m0 ps) = fst ` set m0 \<union> fst ` set ps"
  by (induction ps arbitrary: m0) (simp_all add: map_set_keys case_prod_unfold)

lemma foldl_map_set_map_of:
  "map_of (foldl (\<lambda>m (k, v). map_set k v m) m0 ps) = map_of m0 ++ map_of (rev ps)"
  by (induction ps arbitrary: m0) (auto simp: map_of_map_set case_prod_unfold map_add_def fun_eq_iff split: option.splits)

lemma map_has_new_Map: "map_has k (new_Map ps) \<longleftrightarrow> k \<in> set (map fst ps)"
  by (simp add: map_has_def new_Map_def foldl_map_set_keys)

lemma map_of_new_Map: "map_of (new_Map ps) = map_of (rev ps)"
  by (simp add: new_Map_def foldl_map_set_map_of)

text \<open>
  Claim C5. Without an existing target, \<open>computeDiff\<close> returns the source entries unchanged;
  with one, it returns the source entries, in their order, whose key is not a key of the
  flattened target. Values are not compared.
\<close>

theorem computeDiff_spec:
  "computeDiff sourceEntries None = sourceEntries \<and>
   computeDiff sourceEntries (Some target) =
     filter (\<lambda>entry. key entry \<notin> set (map key (flattenJson target []))) sourceEntries"
  by (simp add: computeDiff_def map_has_new_Map comp_def)

theorem computeDiff_spec_witness:
  "computeDiff [\<lparr>key = ''a'', value = ''Hello''\<rparr>, \<lparr>key = ''b'', value = ''World''\<rparr>,
                \<lparr>key = ''c'', value = ''New''\<rparr>]
     (Some [(''b'', JString ''Monde''), (''a'', JString ''Hello'')])
   = [\<lparr>key = ''c'', value = ''New''\<rparr>]"
  using computeDiff_spec [of "[\<lparr>key = ''a'', value = ''Hello''\<rparr>, \<lparr>key = ''b'', value = ''World''\<rparr>,
                \<lparr>key = ''c'', value = ''New''\<rparr>]" "[(''b'', JString ''Monde''), (''a'', JString ''Hello'')]"]
  by simp


subsection \<open>Unflatten after flatten\<close>

lemma json_fields_simps [simp]:
  "json_fields [] = []"
  "json_fields ((k, d) # rest) = (k, json_of d) # json_fields rest"
  by (simp_all add: json_fields_def)

lemma json_of_Obj [simp]: "json_of (Obj kids) = JObject (json_fields kids)"
  by (simp add: json_fields_def)

declare json_of.simps(2) [simp del]

lemma json_fields_keys [simp]: "map fst (json_fields t) = map fst t"
  by (induction t) auto

lemma string_leaves_json_fields: "string_leaves (json_fields t) = doc_leaves t"
  by (induction t rule: doc_leaves.induct) simp_all

lemma set_path_put: "''__proto__'' \<notin> set p \<Longrightarrow> set_path p v current = Some (put p v current)"
  by (induction p v current rule: set_path.induct) auto

lemma map_set_fresh: "k \<notin> fst ` set m \<Longrightarrow> map_set k v m = m @ [(k, v)]"
  by (induction k v m rule: map_set.induct) auto

lemma map_set_twice: "map_set k y (map_set k x m) = map_set k y m"
  by (induction k x m rule: map_set.induct) auto

lemma child_object_map_set: "child_object (map_set k (Obj c) m) k = c"
  by (simp add: child_object_def map_of_map_set)

lemma child_object_fresh: "k \<notin> fst ` set m \<Longrightarrow> child_object m k = []"
proof -
  assume "k \<notin> fst ` set m"
  then have "map_of m k = None" by (simp add: map_of_eq_None_iff)
  then show ?thesis by (simp add: child_object_def)
qed

lemma put_Cons: "p \<noteq> [] \<Longrightarrow> put (k # p) v m = map_set k (Obj (put p v (child_object m k))) m"
  by (cases p) simp_all

lemma foldl_put_under:
  assumes "\<forall>(p, s)\<in>set L. p \<noteq> []"
  shows "foldl (\<lambda>r (p, s). put p s r) m (map (\<lambda>(p, s). (k # p, s)) L) =
     (if L = [] then m else map_set k (Obj (foldl (\<lambda>r (p, s). put p s r) (child_object m k) L)) m)"
  using assms
proof (induction L arbitrary: m)
  case Nil
  then show ?case by simp
next
  case (Cons x L)
  obtain p s where x: "x = (p, s)" by (cases x)
  with Cons.prems have p: "p \<noteq> []" and rest: "\<forall>(p, s)\<in>set L. p \<noteq> []" by auto
  let ?m1 = "map_set k (Obj (put p s (child_object m k))) m"
  have "foldl (\<lambda>r (p, s). put p s r) m (map (\<lambda>(p, s). (k # p, s)) (x # L)) =
        foldl (\<lambda>r (p, s). put p s r) ?m1 (map (\<lambda>(p, s). (k # p, s)) L)"
    by (simp add: x put_Cons [OF p])
  also have "\<dots> = (if L = [] then ?m1
       else map_set k (Obj (foldl (\<lambda>r (p, s). put p s r) (child_object ?m1 k) L)) ?m1)"
    by (rule Cons.IH [OF rest])
  finally show ?case by (simp add: x child_object_map_set map_set_twice)
qed

lemma doc_leaves_paths_nonempty: "(p, s) \<in> set (doc_leaves t) \<Longrightarrow> p \<noteq> []"
  using leaves_paths_nonempty(2) [of p s "json_fields t"] by (simp add: string_leaves_json_fields)

lemma doc_leaves_nonempty: "no_empty_objects t \<Longrightarrow> t \<noteq> [] \<Longrightarrow> doc_leaves t \<noteq> []"
  by (induction t rule: doc_leaves.induct) auto

lemma foldl_put_doc_leaves:
  "distinct (map fst t) \<Longrightarrow> keys_ok (json_fields t) \<Longrightarrow> no_empty_objects t \<Longrightarrow>
   fst ` set acc \<inter> fst ` set t = {} \<Longrightarrow>
     foldl (\<lambda>r (p, s). put p s r) acc (doc_leaves t) = acc @ t"
proof (induction t arbitrary: acc rule: doc_leaves.induct)
  case 1
  then show ?case by simp
next
  case (2 k s rest)
  from "2.prems" have fresh: "k \<notin> fst ` set acc" by auto
  have "fst ` set (acc @ [(k, Str s)]) \<inter> fst ` set rest = {}"
    using "2.prems" by auto
  with "2.IH" [of "acc @ [(k, Str s)]"] "2.prems" show ?case
    by (simp add: map_set_fresh [OF fresh])
next
  case (3 k kids rest)
  from "3.prems" have fresh: "k \<notin> fst ` set acc" by auto
  have kids: "distinct (map fst kids)" "keys_ok (json_fields kids)" "no_empty_objects kids" "kids \<noteq> []"
    using "3.prems" by simp_all
  have inner: "foldl (\<lambda>r (p, s). put p s r) [] (doc_leaves kids) = kids"
    using "3.IH"(1) [of "[]"] kids by simp
  have ne: "doc_leaves kids \<noteq> []" using doc_leaves_nonempty kids by blast
  have paths: "\<forall>(p, s)\<in>set (doc_leaves kids). p \<noteq> []"
    using doc_leaves_paths_nonempty by blast
  have step: "foldl (\<lambda>r (p, s). put p s r) acc (map (\<lambda>(p, s). (k # p, s)) (doc_leaves kids))
      = acc @ [(k, Obj kids)]"
    by (simp add: foldl_put_under [OF paths] ne child_object_fresh [OF fresh] inner
        map_set_fresh [OF fresh])
  have "fst ` set (acc @ [(k, Obj kids)]) \<inter> fst ` set rest = {}"
    using "3.prems" by auto
  with "3.IH"(2) [of "acc @ [(k, Obj kids)]"] "3.prems" step show ?case by simp
qed

lemma foldl_unflatten_step:
  assumes "\<forall>(p, s)\<in>set L. p \<noteq> [] \<and> list_all dot_free p \<and> ''__proto__'' \<notin> set p"
  shows "foldl unflatten_step (Some acc) (map (\<lambda>(p, s). \<lparr>key = dotted p, value = s\<rparr>) L) =
     Some (foldl (\<lambda>r (p, s). put p s r) acc L)"
  using assms
proof (induction L arbitrary: acc)
  case Nil
  then show ?case by simp
next
  case (Cons x L)
  obtain p s where x: "x = (p, s)" by (cases x)
  with Cons.prems have p: "p \<noteq> []" "list_all dot_free p" and np: "''__proto__'' \<notin> set p" by auto
  have "unflatten_step (Some acc) \<lparr>key = dotted p, value = s\<rparr> = Some (put p s acc)"
    by (simp add: unflatten_step_def split_on_dotted [OF p] set_path_put [OF np])
  with Cons show ?case by (simp add: x)
qed

lemma unflatten_flatten:
  assumes "good_keys (json_fields t)" and "proto_free (json_fields t)" and "no_empty_objects t"
  shows "unflattenJson (flattenJson (json_fields t) []) = Some t"
proof -
  from assms(1) have d: "distinct (map fst t)" and k: "keys_ok (json_fields t)"
    and r: "root_ok (json_fields t)"
    by (simp_all add: good_keys_def)
  have paths: "\<forall>(p, s)\<in>set (doc_leaves t). p \<noteq> [] \<and> list_all dot_free p \<and> ''__proto__'' \<notin> set p"
    using doc_leaves_paths_nonempty leaves_segments(2) [OF k] leaves_no_proto(2) [OF assms(2)]
    by (auto simp: string_leaves_json_fields)
  have "flattenJson (json_fields t) [] = map (\<lambda>(p, s). \<lparr>key = dotted p, value = s\<rparr>) (doc_leaves t)"
    by (simp add: flattenJson_root [OF r] string_leaves_json_fields)
  then have "unflattenJson (flattenJson (json_fields t) []) =
      Some (foldl (\<lambda>r (p, s). put p s r) [] (doc_leaves t))"
    by (simp add: unflattenJson_def foldl_unflatten_step [OF paths])
  also have "foldl (\<lambda>r (p, s). put p s r) [] (doc_leaves t) = t"
    using foldl_put_doc_leaves [OF d k assms(3), of "[]"] by simp
  finally show ?thesis .
qed


text \<open>
  Claim C3, as the code has it. Let \<open>d\<close> be a document whose leaves are all strings (a value
  of type \<open>doc\<close>), whose objects have distinct keys, none of which contains a dot or is
  \<^verbatim>\<open>__proto__\<close>, whose root holds no object under the empty key, and which has no empty
  nested object. Then \<open>unflattenJson (flattenJson d)\<close> returns \<open>d\<close>.
\<close>

theorem unflatten_flatten_roundtrip:
  "good_keys (json_fields d) \<Longrightarrow> proto_free (json_fields d) \<Longrightarrow> no_empty_objects d \<Longrightarrow>
     unflattenJson (flattenJson (json_fields d) []) = Some d"
  by (rule unflatten_flatten)

theorem unflatten_flatten_roundtrip_witness:
  "good_keys (json_fields [(''nav'', Obj [(''home'', Str ''Home''), (''about'', Str ''About'')]),
       (''settings'', Obj [(''theme'', Obj [(''dark'', Str ''Dark Mode'')])])]) \<and>
   no_empty_objects [(''nav'', Obj [(''home'', Str ''Home''), (''about'', Str ''About'')]),
       (''settings'', Obj [(''theme'', Obj [(''dark'', Str ''Dark Mode'')])])] \<and>
   unflattenJson (flattenJson (json_fields
      [(''nav'', Obj [(''home'', Str ''Home''), (''about'', Str ''About'')]),
       (''settings'', Obj [(''theme'', Obj [(''dark'', Str ''Dark Mode'')])])]) [])
   = Some [(''nav'', Obj [(''home'', Str ''Home''), (''about'', Str ''About'')]),
       (''settings'', Obj [(''theme'', Obj [(''dark'', Str ''Dark Mode'')])])]"
proof -
  let ?d = "[(''nav'', Obj [(''home'', Str ''Home''), (''about'', Str ''About'')]),
       (''settings'', Obj [(''theme'', Obj [(''dark'', Str ''Dark Mode'')])])]"
  have g: "good_keys (json_fields ?d)" by (simp add: good_keys_def root_ok_def dot_free_def)
  have f: "proto_free (json_fields ?d)" by simp
  have n: "no_empty_objects ?d" by simp
  from unflatten_flatten_roundtrip [OF g f n] g n show ?thesis by blast
qed

text \<open>
  For every string-leaf document the claim fails: a key with a dot comes back as a nested
  object (and an empty nested object is lost).
\<close>

theorem unflatten_flatten_counterexample:
  "unflattenJson (flattenJson (json_fields [(''a.b'', Str ''x'')]) []) = Some [(''a'', Obj [(''b'', Str ''x'')])]
   \<and> unflattenJson (flattenJson (json_fields [(''a.b'', Str ''x'')]) []) \<noteq> Some [(''a.b'', Str ''x'')]"
  by (simp add: unflattenJson_def unflatten_step_def child_object_def Let_def)

subsection \<open>Merge\<close>

lemma doc_leaves_append: "doc_leaves (xs @ ys) = doc_leaves xs @ doc_leaves ys"
  by (induction xs rule: doc_leaves.induct) simp_all

lemma no_empty_objects_append:
  "no_empty_objects (xs @ ys) \<longleftrightarrow> no_empty_objects xs \<and> no_empty_objects ys"
  by (induction xs rule: no_empty_objects.induct) simp_all

lemma json_fields_append: "json_fields (xs @ ys) = json_fields xs @ json_fields ys"
  by (simp add: json_fields_def)

lemma keys_ok_append: "keys_ok (xs @ ys) \<longleftrightarrow> keys_ok xs \<and> keys_ok ys"
  by (induction xs) auto

lemma root_ok_append: "root_ok (xs @ ys) \<longleftrightarrow> root_ok xs \<and> root_ok ys"
  by (simp add: root_ok_def)

lemma relabel_leaves:
  "doc_leaves (relabel_value g path k v) = map (\<lambda>(p, s). (p, g (dotted (path @ p)) s)) (leaves_value k v)"
  "doc_leaves (relabel g path obj) = map (\<lambda>(p, s). (p, g (dotted (path @ p)) s)) (string_leaves obj)"
  by (induction g path k v and g path obj rule: relabel_value_relabel.induct)
     (auto simp: Let_def doc_leaves_append case_prod_unfold comp_def)

lemma relabel_key_set:
  "(a, b) \<in> set (relabel_value g path k v) \<Longrightarrow> a = k"
  "(a, b) \<in> set (relabel g path obj) \<Longrightarrow> a \<in> fst ` set obj"
  by (induction g path k v and g path obj arbitrary: a b and a b rule: relabel_value_relabel.induct)
     (auto simp: Let_def split: if_splits)

lemma relabel_value_distinct: "distinct (map fst (relabel_value g path k v))"
  by (cases v) (simp_all add: Let_def)

lemma relabel_distinct:
  "distinct (map fst obj) \<Longrightarrow> distinct (map fst (relabel g path obj))"
proof (induction obj)
  case Nil
  then show ?case by simp
next
  case (Cons x obj)
  obtain k v where x: "x = (k, v)" by (cases x)
  have "fst ` set (relabel_value g path k v) \<inter> fst ` set (relabel g path obj) = {}"
    using relabel_key_set(1) [of _ _ g path k v] relabel_key_set(2) [of _ _ g path obj] Cons.prems x
    by fastforce
  with Cons relabel_value_distinct [of g path k v] show ?case by (simp add: x)
qed

lemma relabel_keys_ok:
  "dot_free k \<Longrightarrow> keys_ok_value v \<Longrightarrow> keys_ok (json_fields (relabel_value g path k v))"
  "keys_ok obj \<Longrightarrow> keys_ok (json_fields (relabel g path obj))"
  by (induction g path k v and g path obj rule: relabel_value_relabel.induct)
     (auto simp: Let_def json_fields_append keys_ok_append relabel_distinct)

lemma relabel_no_empty_objects:
  "no_empty_objects (relabel_value g path k v)"
  "no_empty_objects (relabel g path obj)"
  by (induction g path k v and g path obj rule: relabel_value_relabel.induct)
     (auto simp: Let_def no_empty_objects_append)

lemma relabel_root_ok: "root_ok obj \<Longrightarrow> root_ok (json_fields (relabel g path obj))"
proof (induction obj)
  case Nil
  then show ?case by (simp add: root_ok_def)
next
  case (Cons x obj)
  obtain k v where x: "x = (k, v)" by (cases x)
  from Cons.prems have hd: "k = [] \<longrightarrow> \<not> is_object v" and tl: "root_ok obj"
    by (simp_all add: root_ok_def x)
  have "root_ok (json_fields (relabel_value g path k v))"
    using hd by (cases v) (simp_all add: root_ok_def Let_def)
  with Cons.IH [OF tl] show ?case by (simp add: x json_fields_append root_ok_append)
qed

lemma proto_free_append: "proto_free (xs @ ys) \<longleftrightarrow> proto_free xs \<and> proto_free ys"
  by (induction xs) auto

lemma relabel_proto_free:
  "k \<noteq> ''__proto__'' \<Longrightarrow> proto_free_value v \<Longrightarrow> proto_free (json_fields (relabel_value g path k v))"
  "proto_free obj \<Longrightarrow> proto_free (json_fields (relabel g path obj))"
  by (induction g path k v and g path obj rule: relabel_value_relabel.induct)
     (auto simp: Let_def json_fields_append proto_free_append)

lemma relabel_good_keys: "good_keys obj \<Longrightarrow> good_keys (json_fields (relabel g [] obj))"
  by (simp add: good_keys_def relabel_distinct relabel_keys_ok relabel_root_ok)

lemma merge_entries:
  "map (\<lambda>entry. \<lparr>key = key entry,
         value = (case map_get (key entry) translated of
                    Some t \<Rightarrow> t
                  | None \<Rightarrow> (case map_get (key entry)
                        (case existingTarget of
                           Some target \<Rightarrow> new_Map (map (\<lambda>e. (key e, value e)) (flattenJson target []))
                         | None \<Rightarrow> []) of
                               Some x \<Rightarrow> x
                             | None \<Rightarrow> value entry))\<rparr>) sourceEntries
   = map (\<lambda>e. \<lparr>key = key e, value = merged_value translated existingTarget e\<rparr>) sourceEntries"
  by (auto simp: merged_value_def existing_value_def map_of_new_Map map_get_def
      split: option.splits)

lemma merge_of_flatten:
  assumes "good_keys obj" and "proto_free obj"
  shows "mergeTranslations (flattenJson obj []) translated existingTarget =
       Some (merged_document translated existingTarget obj)"
    and "flattenJson (json_fields (merged_document translated existingTarget obj)) [] =
       map (\<lambda>e. \<lparr>key = key e, value = merged_value translated existingTarget e\<rparr>) (flattenJson obj [])"
proof -
  define g where "g k s = merged_value translated existingTarget \<lparr>key = k, value = s\<rparr>" for k s
  define m where "m = relabel g [] obj"
  have "g = (\<lambda>k s. merged_value translated existingTarget \<lparr>key = k, value = s\<rparr>)"
    by (intro ext) (simp add: g_def)
  then have md: "merged_document translated existingTarget obj = m"
    by (simp add: merged_document_def m_def)
  from assms have r: "root_ok obj" by (simp add: good_keys_def)
  have gm: "good_keys (json_fields m)" unfolding m_def using assms(1) by (rule relabel_good_keys)
  have pm: "proto_free (json_fields m)" unfolding m_def using assms(2) by (rule relabel_proto_free)
  have nm: "no_empty_objects m" unfolding m_def by (rule relabel_no_empty_objects)
  have "root_ok (json_fields m)" using gm by (simp add: good_keys_def)
  then have "flattenJson (json_fields m) [] = map (\<lambda>(p, s). \<lparr>key = dotted p, value = s\<rparr>) (doc_leaves m)"
    by (simp add: flattenJson_root string_leaves_json_fields)
  also have "\<dots> = map (\<lambda>e. \<lparr>key = key e, value = merged_value translated existingTarget e\<rparr>)
      (flattenJson obj [])"
    by (simp add: m_def relabel_leaves flattenJson_root [OF r] g_def comp_def case_prod_unfold
        merged_value_def)
  finally have fl: "flattenJson (json_fields m) [] =
      map (\<lambda>e. \<lparr>key = key e, value = merged_value translated existingTarget e\<rparr>) (flattenJson obj [])" .
  have "mergeTranslations (flattenJson obj []) translated existingTarget =
      unflattenJson (flattenJson (json_fields m) [])"
    unfolding mergeTranslations_def Let_def merge_entries fl ..
  with unflatten_flatten [OF gm pm nm]
  show "mergeTranslations (flattenJson obj []) translated existingTarget =
       Some (merged_document translated existingTarget obj)"
    by (simp add: md)
  from fl show "flattenJson (json_fields (merged_document translated existingTarget obj)) [] =
       map (\<lambda>e. \<lparr>key = key e, value = merged_value translated existingTarget e\<rparr>) (flattenJson obj [])"
    by (simp add: md)
qed

text \<open>
  Claim C6, as the code has it. Let the source entries be the flattening of a source
  document whose objects have distinct keys without dots (none \<^verbatim>\<open>__proto__\<close>, no object
  under the empty key at the root). For every translated map and every existing target
  (or none), \<open>mergeTranslations\<close> returns the nested document \<open>merged_document\<close>: the source
  document with its objects nested as in the source and its keys in source order, every
  string leaf holding the translated value if its dotted key is in the translated map,
  otherwise the flattened existing target's value for that key, otherwise the source
  value, and with the leaves that are not strings and the objects that hold no string leaf
  left out. The string leaves of that document, in traversal order, are then the source
  keys in source order with those values. The order of the target's own keys plays no part.
\<close>

theorem mergeTranslations_spec:
  "good_keys source \<Longrightarrow> proto_free source \<Longrightarrow>
     mergeTranslations (flattenJson source []) translated existingTarget
       = Some (merged_document translated existingTarget source) \<and>
     flattenJson (json_fields (merged_document translated existingTarget source)) [] =
       map (\<lambda>e. \<lparr>key = key e, value = merged_value translated existingTarget e\<rparr>)
         (flattenJson source [])"
  by (simp add: merge_of_flatten)

theorem mergeTranslations_spec_witness:
  "good_keys [(''a'', JString ''Hello''), (''k'', JNumber 1),
       (''n'', JObject [(''b'', JString ''World''), (''c'', JString ''New'')])] \<and>
   merged_document [(''n.c'', ''Nouveau'')]
     (Some [(''n'', JObject [(''b'', JString ''Monde'')]), (''a'', JString ''Bonjour'')])
     [(''a'', JString ''Hello''), (''k'', JNumber 1),
      (''n'', JObject [(''b'', JString ''World''), (''c'', JString ''New'')])]
   = [(''a'', Str ''Bonjour''), (''n'', Obj [(''b'', Str ''Monde''), (''c'', Str ''Nouveau'')])] \<and>
   mergeTranslations
     (flattenJson [(''a'', JString ''Hello''), (''k'', JNumber 1),
        (''n'', JObject [(''b'', JString ''World''), (''c'', JString ''New'')])] [])
     [(''n.c'', ''Nouveau'')]
     (Some [(''n'', JObject [(''b'', JString ''Monde'')]), (''a'', JString ''Bonjour'')])
   = Some [(''a'', Str ''Bonjour''), (''n'', Obj [(''b'', Str ''Monde''), (''c'', Str ''Nouveau'')])] \<and>
   flattenJson (json_fields
      [(''a'', Str ''Bonjour''), (''n'', Obj [(''b'', Str ''Monde''), (''c'', Str ''Nouveau'')])]) []
   = [\<lparr>key = ''a'', value = ''Bonjour''\<rparr>, \<lparr>key = ''n.b'', value = ''Monde''\<rparr>,
      \<lparr>key = ''n.c'', value = ''Nouveau''\<rparr>]"
proof -
  let ?src = "[(''a'', JString ''Hello''), (''k'', JNumber 1),
      (''n'', JObject [(''b'', JString ''World''), (''c'', JString ''New'')])]"
  let ?tr = "[(''n.c'', ''Nouveau'')]"
  let ?ex = "Some [(''n'', JObject [(''b'', JString ''Monde'')]), (''a'', JString ''Bonjour'')]"
  let ?m = "[(''a'', Str ''Bonjour''), (''n'', Obj [(''b'', Str ''Monde''), (''c'', Str ''Nouveau'')])]"
  have g: "good_keys ?src" by (simp add: good_keys_def root_ok_def dot_free_def)
  have f: "proto_free ?src" by simp
  have md: "merged_document ?tr ?ex ?src = ?m"
    by (simp add: merged_document_def merged_value_def existing_value_def Let_def)
  have mv: "map (\<lambda>e. \<lparr>key = key e, value = merged_value ?tr ?ex e\<rparr>) (flattenJson ?src [])
      = [\<lparr>key = ''a'', value = ''Bonjour''\<rparr>, \<lparr>key = ''n.b'', value = ''Monde''\<rparr>,
         \<lparr>key = ''n.c'', value = ''Nouveau''\<rparr>]"
    by (simp add: merged_value_def existing_value_def)
  from mergeTranslations_spec [OF g f, of ?tr ?ex]
  have "mergeTranslations (flattenJson ?src []) ?tr ?ex = Some ?m"
    and "flattenJson (json_fields ?m) [] =
      [\<lparr>key = ''a'', value = ''Bonjour''\<rparr>, \<lparr>key = ''n.b'', value = ''Monde''\<rparr>,
       \<lparr>key = ''n.c'', value = ''Nouveau''\<rparr>]"
    unfolding md mv by blast+
  with g md show ?thesis by blast
qed

text \<open>
  For every list of source entries the claim fails: when one source key is a dotted prefix
  of another, the later entry replaces the value of the earlier one by an object, and the
  document has no value at the earlier key.
\<close>

theorem mergeTranslations_counterexample:
  "mergeTranslations [\<lparr>key = ''a'', value = ''x''\<rparr>, \<lparr>key = ''a.b'', value = ''y''\<rparr>] [] None
     = Some [(''a'', Obj [(''b'', Str ''y'')])] \<and>
   flattenJson (json_fields [(''a'', Obj [(''b'', Str ''y'')])]) []
     \<noteq> map (\<lambda>e. \<lparr>key = key e, value = merged_value [] None e\<rparr>)
          [\<lparr>key = ''a'', value = ''x''\<rparr>, \<lparr>key = ''a.b'', value = ''y''\<rparr>]"
  by (simp add: mergeTranslations_def unflattenJson_def unflatten_step_def child_object_def
      map_get_def Let_def)

section \<open>Translation client: retry loop (client.ts)\<close>

text \<open>
  The network is a function \<open>fetch\<close> from the attempt number to what the request
  meets: \<open>Threw err\<close> when \<^verbatim>\<open>fetch\<close> rejects (a network failure, or the abort of the 30
  second timeout), \<open>Responded resp\<close> otherwise. A response carries its status, the value
  of its Retry-After header in seconds (\<open>None\<close> when the header is absent or empty; a
  header that is not an integer is outside the model), the message the code reads from the
  error body or the status text, and its body. A run records the outcome, the number of
  requests made and the sleeps in order, in milliseconds. The second-last argument of the
  loop is \<^verbatim>\<open>lastError\<close>.
\<close>

record http_response =
  status :: nat
  retryAfter :: "int option"
  errorMessage :: string
  body :: string

datatype fetch_result = Threw string | Responded http_response

datatype outcome = Returned string | Raised string

record retry_run =
  outcome :: outcome
  attempts :: nat
  sleeps :: "int list"

definition RETRIABLE_STATUS_CODES :: "nat set" where
  "RETRIABLE_STATUS_CODES = {429, 500, 502, 503, 504}"

definition ok :: "http_response \<Rightarrow> bool" where
  "ok resp \<longleftrightarrow> 200 \<le> status resp \<and> status resp \<le> 299"

definition api_error :: "http_response \<Rightarrow> string" where
  "api_error resp = ''Langbly API error ('' @ digits (status resp) @ ''): '' @ errorMessage resp"

function postWithRetry_from ::
  "nat \<Rightarrow> (nat \<Rightarrow> fetch_result) \<Rightarrow> nat \<Rightarrow> string option \<Rightarrow> int list \<Rightarrow> retry_run" where
  "postWithRetry_from maxRetries fetch attempt lastError slept =
     (if attempt \<le> maxRetries then
        (case fetch attempt of
           Threw err \<Rightarrow>
             if attempt < maxRetries then
               postWithRetry_from maxRetries fetch (attempt + 1) (Some err) (slept @ [500 * 2 ^ attempt])
             else
               \<lparr>outcome = Raised (''Langbly API request failed after '' @ digits (maxRetries + 1)
                            @ '' attempts: '' @ err),
                attempts = attempt + 1, sleeps = slept\<rparr>
         | Responded resp \<Rightarrow>
             if ok resp then \<lparr>outcome = Returned (body resp), attempts = attempt + 1, sleeps = slept\<rparr>
             else if status resp \<notin> RETRIABLE_STATUS_CODES then
               \<lparr>outcome = Raised (api_error resp), attempts = attempt + 1, sleeps = slept\<rparr>
             else if attempt < maxRetries then
               (let delay = (case retryAfter resp of
                               Some seconds \<Rightarrow> min (seconds * 1000) 30000
                             | None \<Rightarrow> 500 * 2 ^ attempt)
                in postWithRetry_from maxRetries fetch (attempt + 1) lastError (slept @ [delay]))
             else \<lparr>outcome = Raised (api_error resp), attempts = attempt + 1, sleeps = slept\<rparr>)
      else
        \<lparr>outcome = Raised (case lastError of Some err \<Rightarrow> err | None \<Rightarrow> ''Request failed''),
         attempts = attempt, sleeps = slept\<rparr>)"
  by pat_completeness auto
termination
  by (relation "measure (\<lambda>(maxRetries, fetch, attempt, lastError, slept). Suc maxRetries - attempt)") auto

declare postWithRetry_from.simps [simp del]

definition postWithRetry :: "nat \<Rightarrow> (nat \<Rightarrow> fetch_result) \<Rightarrow> retry_run" where
  "postWithRetry maxRetries fetch = postWithRetry_from maxRetries fetch 0 None []"

text \<open>
  A transient failure is one the loop retries; \<open>backoff\<close> is the delay it computes after
  such a failure, and \<open>final_error\<close> the message of the error it raises after the last.
\<close>

definition transient :: "fetch_result \<Rightarrow> bool" where
  "transient r = (case r of Threw err \<Rightarrow> True | Responded resp \<Rightarrow> \<not> ok resp \<and> status resp \<in> RETRIABLE_STATUS_CODES)"

definition backoff :: "nat \<Rightarrow> fetch_result \<Rightarrow> int" where
  "backoff attempt r =
     (case r of
        Threw err \<Rightarrow> 500 * 2 ^ attempt
      | Responded resp \<Rightarrow>
          (case retryAfter resp of Some seconds \<Rightarrow> min (seconds * 1000) 30000 | None \<Rightarrow> 500 * 2 ^ attempt))"


definition final_error :: "nat \<Rightarrow> fetch_result \<Rightarrow> string" where
  "final_error maxRetries r =
     (case r of
        Threw err \<Rightarrow> ''Langbly API request failed after '' @ digits (maxRetries + 1) @ '' attempts: '' @ err
      | Responded resp \<Rightarrow> api_error resp)"

subsection \<open>Exhausting the retries\<close>

lemma retry_from_exhausts:
  assumes "\<forall>i. attempt \<le> i \<and> i \<le> maxRetries \<longrightarrow> transient (fetch i)" and "attempt \<le> maxRetries"
  shows "postWithRetry_from maxRetries fetch attempt lastError slept =
     \<lparr>outcome = Raised (final_error maxRetries (fetch maxRetries)),
      attempts = maxRetries + 1,
      sleeps = slept @ map (\<lambda>i. backoff i (fetch i)) [attempt..<maxRetries]\<rparr>"
  using assms
proof (induction "maxRetries - attempt" arbitrary: attempt lastError slept)
  case 0
  then have eq: "attempt = maxRetries" by simp
  from "0.prems"(1) eq have "transient (fetch maxRetries)" by simp
  then show ?case
    unfolding eq
    by (subst postWithRetry_from.simps)
       (auto simp: transient_def final_error_def split: fetch_result.splits)
next
  case (Suc n)
  then have lt: "attempt < maxRetries" by simp
  from Suc.prems(1) lt have tr: "transient (fetch attempt)" by simp
  have later: "\<forall>i. attempt + 1 \<le> i \<and> i \<le> maxRetries \<longrightarrow> transient (fetch i)"
    using Suc.prems(1) by simp
  have n: "n = maxRetries - (attempt + 1)" using Suc.hyps(2) by simp
  have le: "attempt + 1 \<le> maxRetries" using lt by simp
  have up: "[attempt..<maxRetries] = attempt # [attempt + 1..<maxRetries]"
    using lt by (simp add: upt_conv_Cons)
  show ?case
  proof (cases "fetch attempt")
    case (Threw err)
    then show ?thesis
      using lt Suc.hyps(1) [OF n later le, of "Some err" "slept @ [500 * 2 ^ attempt]"]
      by (subst postWithRetry_from.simps) (simp add: up backoff_def)
  next
    case (Responded resp)
    with tr have r: "\<not> ok resp" "status resp \<in> RETRIABLE_STATUS_CODES"
      by (simp_all add: transient_def)
    show ?thesis
      using lt r Responded
        Suc.hyps(1) [OF n later le, of lastError "slept @ [backoff attempt (fetch attempt)]"]
      by (subst postWithRetry_from.simps) (simp add: up backoff_def Let_def)
  qed
qed

lemma backoff_capped:
  "fetch i = Responded resp \<Longrightarrow> retryAfter resp = Some seconds \<Longrightarrow> backoff i (fetch i) \<le> 30000"
  by (simp add: backoff_def)

text \<open>
  Claim C8, as the code has it. If every attempt fails transiently (the request throws,
  which covers network failures and the 30 second timeout, or the response has one of the
  statuses 429, 500, 502, 503, 504), the client makes exactly \<open>maxRetries + 1\<close> attempts.
  Before retry number \<open>i + 1\<close> it sleeps \<open>500 * 2 ^ i\<close> milliseconds, or, after a retriable
  response that carries a Retry-After value, that many seconds capped at 30000
  milliseconds. It then raises an error: one that names the \<open>maxRetries + 1\<close> attempts when
  the last attempt threw, and one that carries the status and the server's message when the
  last attempt got a response.
\<close>

theorem postWithRetry_exhausts:
  assumes "\<forall>i\<le>maxRetries. transient (fetch i)"
  shows "attempts (postWithRetry maxRetries fetch) = maxRetries + 1 \<and>
         sleeps (postWithRetry maxRetries fetch) = map (\<lambda>i. backoff i (fetch i)) [0..<maxRetries] \<and>
         outcome (postWithRetry maxRetries fetch) = Raised (final_error maxRetries (fetch maxRetries)) \<and>
         (\<forall>err. fetch maxRetries = Threw err \<longrightarrow>
            outcome (postWithRetry maxRetries fetch) =
              Raised (''Langbly API request failed after '' @ digits (maxRetries + 1) @ '' attempts: '' @ err)) \<and>
         (\<forall>i resp seconds. fetch i = Responded resp \<and> retryAfter resp = Some seconds \<longrightarrow>
            backoff i (fetch i) \<le> 30000)"
proof -
  have "postWithRetry maxRetries fetch =
     \<lparr>outcome = Raised (final_error maxRetries (fetch maxRetries)),
      attempts = maxRetries + 1,
      sleeps = [] @ map (\<lambda>i. backoff i (fetch i)) [0..<maxRetries]\<rparr>"
    unfolding postWithRetry_def using assms by (intro retry_from_exhausts) simp_all
  then show ?thesis by (auto simp: final_error_def backoff_def)
qed

theorem postWithRetry_exhausts_witness:
  "postWithRetry 2 (\<lambda>i. if i < 2 then Responded \<lparr>status = 503, retryAfter = (if i = 0 then Some 120 else None),
        errorMessage = ''busy'', body = []\<rparr> else Threw ''timeout'')
   = \<lparr>outcome = Raised ''Langbly API request failed after 3 attempts: timeout'',
      attempts = 3, sleeps = [30000, 1000]\<rparr>"
proof -
  let ?fetch = "\<lambda>i::nat. if i < 2 then Responded \<lparr>status = 503, retryAfter = (if i = 0 then Some 120 else None),
        errorMessage = ''busy'', body = []\<rparr> else Threw ''timeout''"
  have tr: "\<forall>i\<le>2. transient (?fetch i)"
    by (simp add: transient_def ok_def RETRIABLE_STATUS_CODES_def)
  have up: "[0..<2] = [0, Suc 0]" by (simp add: upt_rec)
  have d3: "digits 3 = ''3''" by (simp add: digits.simps digit_char_def)
  note ex = postWithRetry_exhausts [OF tr]
  have a: "attempts (postWithRetry 2 ?fetch) = 3" using ex by simp
  have s: "sleeps (postWithRetry 2 ?fetch) = [30000, 1000]"
    using ex by (simp add: up backoff_def)
  have "outcome (postWithRetry 2 ?fetch) = Raised (final_error 2 (?fetch 2))" using ex by blast
  then have o: "outcome (postWithRetry 2 ?fetch) = Raised ''Langbly API request failed after 3 attempts: timeout''"
    by (simp add: final_error_def d3)
  from a s o show ?thesis by (cases "postWithRetry 2 ?fetch") simp
qed

text \<open>
  The claim as stated fails twice. A status of the 5xx class outside the retriable set is
  not retried: one attempt. And when every attempt gets a retriable status, the error
  raised after the last one carries the status and the message, not the number of attempts.
\<close>

theorem postWithRetry_counterexample:
  "postWithRetry 2 (\<lambda>i. Responded \<lparr>status = 501, retryAfter = None, errorMessage = ''Not Implemented'', body = []\<rparr>)
     = \<lparr>outcome = Raised ''Langbly API error (501): Not Implemented'', attempts = 1, sleeps = []\<rparr> \<and>
   postWithRetry 2 (\<lambda>i. Responded \<lparr>status = 503, retryAfter = None, errorMessage = ''Service Unavailable'', body = []\<rparr>)
     = \<lparr>outcome = Raised ''Langbly API error (503): Service Unavailable'', attempts = 3, sleeps = [500, 1000]\<rparr>"
  by (simp add: postWithRetry_def postWithRetry_from.simps ok_def RETRIABLE_STATUS_CODES_def
      api_error_def digits.simps digit_char_def Let_def)

section \<open>Placeholder guard (placeholders.ts)\<close>

text \<open>
  The six regular expressions of \<^verbatim>\<open>PLACEHOLDER_PATTERNS\<close> are modelled by \<open>match_at\<close>:
  whether the pattern matches at the start of a string, and if so the match and the rest of
  the string. Each pattern is a fixed opening, a greedy run of one character class and a
  fixed closing that is outside the class, so the greedy run is the only candidate:
  \<^verbatim>\<open>\w\<close> is \<open>isWord\<close>, \<^verbatim>\<open>[a-zA-Z_]\<close> is \<open>isIdStart\<close>, \<^verbatim>\<open>\d\<close> is \<open>isDigit\<close> and
  \<^verbatim>\<open>[sdfu@]\<close> is \<open>isConversion\<close>.
\<close>

definition isDigit :: "char \<Rightarrow> bool" where
  "isDigit c \<longleftrightarrow> c \<in> set ''0123456789''"

definition isIdStart :: "char \<Rightarrow> bool" where
  "isIdStart c \<longleftrightarrow> c \<in> set ''abcdefghijklmnopqrstuvwxyzABCDEFGHIJKLMNOPQRSTUVWXYZ_''"

definition isWord :: "char \<Rightarrow> bool" where
  "isWord c \<longleftrightarrow> isIdStart c \<or> isDigit c"

definition isConversion :: "char \<Rightarrow> bool" where
  "isConversion c \<longleftrightarrow> c \<in> set ''sdfu@''"

datatype pattern = DoubleBrace | Brace | Positional | Printf | Template | Nested

definition PLACEHOLDER_PATTERNS :: "pattern list" where
  "PLACEHOLDER_PATTERNS = [DoubleBrace, Brace, Positional, Printf, Template, Nested]"

definition strip :: "string \<Rightarrow> string \<Rightarrow> string option" where
  "strip lit s = (if prefix lit s then Some (drop (length lit) s) else None)"

definition name_then :: "string \<Rightarrow> string \<Rightarrow> string \<Rightarrow> (string \<times> string) option" where
  "name_then opening closing s =
     (case s of
        [] \<Rightarrow> None
      | c # r \<Rightarrow>
          if isIdStart c then
            (case strip closing (dropWhile isWord r) of
               None \<Rightarrow> None
             | Some rest \<Rightarrow> Some (opening @ c # takeWhile isWord r @ closing, rest))
          else None)"

fun match_at :: "pattern \<Rightarrow> string \<Rightarrow> (string \<times> string) option" where
  "match_at DoubleBrace s =
     (case strip ''{{'' s of None \<Rightarrow> None | Some r \<Rightarrow> name_then ''{{'' ''}}'' r)"
| "match_at Brace s =
     (case strip ''{'' s of None \<Rightarrow> None | Some r \<Rightarrow> name_then ''{'' ''}'' r)"
| "match_at Positional s =
     (case strip ''%'' s of
        None \<Rightarrow> None
      | Some r \<Rightarrow>
          if takeWhile isDigit r = [] then None
          else
            (case strip ''$'' (dropWhile isDigit r) of
               None \<Rightarrow> None
             | Some r1 \<Rightarrow>
                 (case r1 of
                    [] \<Rightarrow> None
                  | c # rest \<Rightarrow>
                      if isConversion c then Some (''%'' @ takeWhile isDigit r @ ''$'' @ [c], rest)
                      else None)))"
| "match_at Printf s =
     (case strip ''%'' s of
        None \<Rightarrow> None
      | Some r \<Rightarrow>
          (case r of
             [] \<Rightarrow> None
           | c # rest \<Rightarrow> if isConversion c then Some ([CHR ''%'', c], rest) else None))"
| "match_at Template s =
     (case strip ''${'' s of None \<Rightarrow> None | Some r \<Rightarrow> name_then ''${'' ''}'' r)"
| "match_at Nested s =
     (case strip ''$t('' s of
        None \<Rightarrow> None
      | Some r \<Rightarrow>
          if takeWhile (\<lambda>c. c \<noteq> CHR '')'') r = [] then None
          else
            (case strip '')'' (dropWhile (\<lambda>c. c \<noteq> CHR '')'') r) of
               None \<Rightarrow> None
             | Some rest \<Rightarrow> Some (''$t('' @ takeWhile (\<lambda>c. c \<noteq> CHR '')'') r @ '')'', rest)))"

text \<open>
  \<^verbatim>\<open>result.replace(pattern, callback)\<close> with a global pattern scans the string from the
  left; at a match it calls the callback, which makes the token from \<^verbatim>\<open>idx\<close>, records the
  match in the \<^verbatim>\<open>placeholders\<close> map and increments \<^verbatim>\<open>idx\<close>, and goes on after the match.
  \<open>replace_pattern\<close> is that scan, with the two variables of the closure passed through.
\<close>

definition token :: "nat \<Rightarrow> string" where
  "token idx = ''__PH'' @ digits idx @ ''__''"

lemma strip_Some: "strip lit s = Some r \<Longrightarrow> s = lit @ r"
  by (auto simp: strip_def prefix_def split: if_splits)

lemma name_then_Some:
  "name_then opening closing s = Some (m, rest) \<Longrightarrow> opening @ s = m @ rest \<and> m \<noteq> []"
proof -
  assume a: "name_then opening closing s = Some (m, rest)"
  then obtain c r where s: "s = c # r" by (cases s) (auto simp: name_then_def)
  from a s obtain x where x: "strip closing (dropWhile isWord r) = Some x"
    and m: "m = opening @ c # takeWhile isWord r @ closing" and rest: "rest = x"
    by (auto simp: name_then_def split: if_splits option.splits)
  from strip_Some [OF x] have "dropWhile isWord r = closing @ x" .
  then have "r = takeWhile isWord r @ closing @ x"
    by (metis takeWhile_dropWhile_id)
  with s m rest show ?thesis by simp
qed

lemma match_at_Some: "match_at p s = Some (m, rest) \<Longrightarrow> s = m @ rest \<and> m \<noteq> []"
proof (cases p)
  case DoubleBrace
  assume "match_at p s = Some (m, rest)"
  with DoubleBrace show ?thesis
    by (auto split: option.splits dest!: strip_Some name_then_Some)
next
  case Brace
  assume "match_at p s = Some (m, rest)"
  with Brace show ?thesis
    by (auto split: option.splits dest!: strip_Some name_then_Some)
next
  case Positional
  assume a: "match_at p s = Some (m, rest)"
  with Positional obtain r r1 c where r: "strip ''%'' s = Some r"
    and r1: "strip ''$'' (dropWhile isDigit r) = Some r1" and c: "r1 = c # rest"
    and m: "m = ''%'' @ takeWhile isDigit r @ ''$'' @ [c]"
    by (auto split: option.splits if_splits list.splits)
  from strip_Some [OF r1] have "dropWhile isDigit r = ''$'' @ r1" .
  then have "r = takeWhile isDigit r @ ''$'' @ r1" by (metis takeWhile_dropWhile_id)
  with strip_Some [OF r] c m show ?thesis by simp
next
  case Printf
  assume "match_at p s = Some (m, rest)"
  with Printf show ?thesis
    by (auto split: option.splits if_splits list.splits dest!: strip_Some)
next
  case Template
  assume "match_at p s = Some (m, rest)"
  with Template show ?thesis
    by (auto split: option.splits dest!: strip_Some name_then_Some)
next
  case Nested
  assume a: "match_at p s = Some (m, rest)"
  with Nested obtain r where r: "strip ''$t('' s = Some r"
    and r1: "strip '')'' (dropWhile (\<lambda>c. c \<noteq> CHR '')'') r) = Some rest"
    and m: "m = ''$t('' @ takeWhile (\<lambda>c. c \<noteq> CHR '')'') r @ '')''"
    by (auto split: option.splits if_splits)
  from strip_Some [OF r1] have "dropWhile (\<lambda>c. c \<noteq> CHR '')'') r = '')'' @ rest" .
  then have "r = takeWhile (\<lambda>c. c \<noteq> CHR '')'') r @ '')'' @ rest" by (metis takeWhile_dropWhile_id)
  with strip_Some [OF r] m show ?thesis by simp
qed

function replace_pattern ::
  "pattern \<Rightarrow> string \<Rightarrow> nat \<Rightarrow> (string \<times> string) list \<Rightarrow> string \<times> nat \<times> (string \<times> string) list" where
  "replace_pattern p [] idx placeholders = ([], idx, placeholders)"
| "replace_pattern p (c # cs) idx placeholders =
     (case match_at p (c # cs) of
        Some (m, rest) \<Rightarrow>
          (case replace_pattern p rest (idx + 1) (map_set (token idx) m placeholders) of
             (out, st) \<Rightarrow> (token idx @ out, st))
      | None \<Rightarrow>
          (case replace_pattern p cs idx placeholders of
             (out, st) \<Rightarrow> (c # out, st)))"
  by pat_completeness auto
termination
proof (relation "measure (\<lambda>(p, s, idx, placeholders). length s)")
  fix p :: pattern and c cs idx and placeholders :: "(string \<times> string) list" and x m rest
  assume "match_at p (c # cs) = Some x" and "(m, rest) = x"
  then have "match_at p (c # cs) = Some (m, rest)" by simp
  from match_at_Some [OF this] have "length (c # cs) = length m + length rest" and "m \<noteq> []"
    by (metis length_append, simp)
  then show "((p, rest, idx + 1, map_set (token idx) m placeholders), (p, c # cs, idx, placeholders))
      \<in> measure (\<lambda>(p, s, idx, placeholders). length s)"
    by (cases m) simp_all
qed simp_all

fun protect_loop ::
  "pattern list \<Rightarrow> string \<Rightarrow> nat \<Rightarrow> (string \<times> string) list \<Rightarrow> string \<times> nat \<times> (string \<times> string) list" where
  "protect_loop [] result idx placeholders = (result, idx, placeholders)"
| "protect_loop (p # ps) result idx placeholders =
     (case replace_pattern p result idx placeholders of
        (result', idx', placeholders') \<Rightarrow> protect_loop ps result' idx' placeholders')"

record ProtectedText =
  "text" :: string
  placeholders :: "(string \<times> string) list"

definition protectPlaceholders :: "string \<Rightarrow> ProtectedText" where
  "protectPlaceholders input =
     (case protect_loop PLACEHOLDER_PATTERNS input 0 [] of
        (result, idx, phs) \<Rightarrow> \<lparr>text = result, placeholders = phs\<rparr>)"

text \<open>
  \<^verbatim>\<open>result.replace(token, original)\<close> with two strings replaces the first occurrence of
  \<^verbatim>\<open>token\<close> only, and reads \<^verbatim>\<open>original\<close> as a replacement template: \<^verbatim>\<open>$$\<close> stands for a
  dollar sign, \<^verbatim>\<open>$&\<close> for the matched text, and a dollar sign with a backquote or a quote
  for the text before or after the match (there are no capture groups, so \<^verbatim>\<open>$1\<close> is
  literal). \<open>getSubstitution\<close> expands the template; \<open>restorePlaceholders\<close> iterates over the
  map in insertion order.
\<close>

fun getSubstitution :: "string \<Rightarrow> string \<Rightarrow> string \<Rightarrow> string \<Rightarrow> string" where
  "getSubstitution matched preceding following [] = []"
| "getSubstitution matched preceding following [c] = [c]"
| "getSubstitution matched preceding following (c # d # r) =
     (if c = CHR ''$'' \<and> d = CHR ''$'' then CHR ''$'' # getSubstitution matched preceding following r
      else if c = CHR ''$'' \<and> d = CHR ''&'' then matched @ getSubstitution matched preceding following r
      else if c = CHR ''$'' \<and> d = CHR 0x60 then preceding @ getSubstitution matched preceding following r
      else if c = CHR ''$'' \<and> d = CHR 0x27 then following @ getSubstitution matched preceding following r
      else c # getSubstitution matched preceding following (d # r))"

definition js_replace :: "string \<Rightarrow> string \<Rightarrow> string \<Rightarrow> string" where
  "js_replace s searchValue replaceValue =
     (case indexOf searchValue s of
        None \<Rightarrow> s
      | Some pos \<Rightarrow>
          take pos s
          @ getSubstitution searchValue (take pos s) (drop (pos + length searchValue) s) replaceValue
          @ drop (pos + length searchValue) s)"

definition restorePlaceholders :: "string \<Rightarrow> (string \<times> string) list \<Rightarrow> string" where
  "restorePlaceholders input phs =
     foldl (\<lambda>result (token, original). js_replace result token original) input phs"


subsection \<open>Texts of characters and tokens\<close>

text \<open>
  A text in which tokens stand among ordinary characters is a list of items; \<open>render\<close> is
  the string it stands for, and \<open>expand\<close> the string with every token that has an original
  replaced by it. \<open>no_token_text s\<close> says that \<open>s\<close> nowhere has the letters \<^verbatim>\<open>PH\<close> followed by
  a digit, the core of every token; \<open>plain_replacement s\<close> that \<open>s\<close> has no dollar sequence
  that \<open>getSubstitution\<close> expands. \<open>entries\<close> turns numbered originals into a placeholders map.
\<close>

datatype item = Ch char | Tk nat

fun render_item :: "item \<Rightarrow> string" where
  "render_item (Ch c) = [c]"
| "render_item (Tk i) = token i"

definition render :: "item list \<Rightarrow> string" where
  "render T = concat (map render_item T)"

fun expand_item :: "(nat \<Rightarrow> string option) \<Rightarrow> item \<Rightarrow> string" where
  "expand_item originals (Ch c) = [c]"
| "expand_item originals (Tk i) = (case originals i of Some original \<Rightarrow> original | None \<Rightarrow> token i)"

definition expand :: "(nat \<Rightarrow> string option) \<Rightarrow> item list \<Rightarrow> string" where
  "expand originals T = concat (map (expand_item originals) T)"

fun no_token_text :: "string \<Rightarrow> bool" where
  "no_token_text (a # b # c # r) =
     (\<not> (a = CHR ''P'' \<and> b = CHR ''H'' \<and> isDigit c) \<and> no_token_text (b # c # r))"
| "no_token_text s = True"

fun plain_replacement :: "string \<Rightarrow> bool" where
  "plain_replacement (c # d # r) =
     (\<not> (c = CHR ''$'' \<and> d \<in> set [CHR ''$'', CHR ''&'', CHR 0x60, CHR 0x27]) \<and> plain_replacement (d # r))"
| "plain_replacement s = True"

fun toks :: "item list \<Rightarrow> nat list" where
  "toks [] = []"
| "toks (Ch c # T) = toks T"
| "toks (Tk i # T) = i # toks T"

definition entries :: "(nat \<times> string) list \<Rightarrow> (string \<times> string) list" where
  "entries E = map (\<lambda>(i, original). (token i, original)) E"

definition tokchar :: "char \<Rightarrow> bool" where
  "tokchar c \<longleftrightarrow> c = CHR ''_'' \<or> c = CHR ''P'' \<or> c = CHR ''H'' \<or> isDigit c"

definition digit_val :: "char \<Rightarrow> nat" where
  "digit_val c = of_char c - 48"

definition number_of :: "string \<Rightarrow> nat" where
  "number_of ds = foldl (\<lambda>a c. 10 * a + digit_val c) 0 ds"

subsection \<open>Decimal numerals and tokens\<close>

lemmas placeholder_eval =
  protectPlaceholders_def PLACEHOLDER_PATTERNS_def strip_def name_then_def token_def
  digits.simps digit_char_def isIdStart_def isWord_def isDigit_def isConversion_def
  restorePlaceholders_def js_replace_def

lemma digit_cases: "d < 10 \<Longrightarrow> d \<in> {0, 1, 2, 3, 4, 5, 6, 7, 8, 9::nat}"
  by auto

lemma digit_char_isDigit: "d < 10 \<Longrightarrow> isDigit (digit_char d)"
  using digit_cases [of d] by (auto simp: digit_char_def isDigit_def)

lemma digit_val_digit_char: "d < 10 \<Longrightarrow> digit_val (digit_char d) = d"
  using digit_cases [of d] by (auto simp: digit_char_def digit_val_def)

lemma digits_isDigit: "list_all isDigit (digits n)"
  by (induction n rule: digits.induct) (subst digits.simps, simp add: digit_char_isDigit)

lemma digits_nonempty: "digits n \<noteq> []"
  by (subst digits.simps) simp

lemma number_of_snoc: "number_of (ds @ [c]) = 10 * number_of ds + digit_val c"
  by (simp add: number_of_def)

lemma number_of_digits: "number_of (digits n) = n"
proof (induction n rule: digits.induct)
  case (1 n)
  show ?case
  proof (cases "n < 10")
    case True
    then show ?thesis
      by (subst digits.simps) (simp add: number_of_def digit_val_digit_char)
  next
    case False
    with 1 have "number_of (digits (n div 10)) = n div 10" by simp
    with False show ?thesis
      by (subst digits.simps) (simp add: number_of_snoc digit_val_digit_char)
  qed
qed

lemma digits_inj: "digits n = digits m \<Longrightarrow> n = m"
  by (metis number_of_digits)

lemma isDigit_not_underscore: "isDigit c \<Longrightarrow> c \<noteq> CHR ''_''"
  by (auto simp: isDigit_def)

lemma digit_runs_equal:
  "list_all isDigit a \<Longrightarrow> list_all isDigit b \<Longrightarrow> prefix (a @ CHR ''_'' # w1) (b @ CHR ''_'' # w2) \<Longrightarrow> a = b"
proof (induction a arbitrary: b)
  case Nil
  then show ?case by (cases b) (auto dest: isDigit_not_underscore)
next
  case (Cons x a)
  then show ?case by (cases b) (auto dest: isDigit_not_underscore)
qed

lemma token_unfold: "token i = CHR ''_'' # CHR ''_'' # CHR ''P'' # CHR ''H'' # digits i @ ''__''"
  by (simp add: token_def)

lemma token_nonempty: "token i \<noteq> []"
  by (simp add: token_def)

lemma token_inj: "token i = token j \<Longrightarrow> i = j"
  by (simp add: token_def digits_inj)

lemma token_tokchars: "list_all tokchar (token i)"
proof -
  have "list_all tokchar (digits i)"
    using digits_isDigit [of i] by (simp add: list_all_iff tokchar_def)
  then show ?thesis by (simp add: token_def tokchar_def)
qed

lemma no_token_text_tl: "no_token_text (c # s) \<Longrightarrow> no_token_text s"
  by (cases s rule: no_token_text.cases) auto

lemma no_token_text_suffix: "no_token_text (u @ v) \<Longrightarrow> no_token_text v"
  by (induction u) (auto dest: no_token_text_tl)

lemma no_token_text_prefix: "no_token_text (u @ v) \<Longrightarrow> no_token_text u"
  by (induction u rule: no_token_text.induct) auto

lemma token_has_token_text: "\<not> no_token_text (token i @ w)"
proof -
  obtain d ds where d: "digits i = d # ds" using digits_nonempty [of i] by (cases "digits i") auto
  with digits_isDigit [of i] have "isDigit d" by simp
  then show ?thesis by (simp add: token_def d)
qed


subsection \<open>Where a token is first found\<close>

lemma render_simps [simp]:
  "render [] = []"
  "render (Ch c # T) = c # render T"
  "render (Tk i # T) = token i @ render T"
  "render (A @ B) = render A @ render B"
  by (simp_all add: render_def)

lemma expand_simps [simp]:
  "expand originals [] = []"
  "expand originals (Ch c # T) = c # expand originals T"
  "expand originals (Tk i # T) = expand_item originals (Tk i) @ expand originals T"
  "expand originals (A @ B) = expand originals A @ expand originals B"
  by (simp_all add: expand_def)

lemma render_chars [simp]: "render (map Ch s) = s"
  by (induction s) simp_all

lemma expand_chars [simp]: "expand originals (map Ch s) = s"
  by (induction s) simp_all

lemma indexOf_skip:
  assumes "pat \<noteq> []" and "\<forall>k<length u. \<not> prefix pat (drop k u @ s)"
  shows "indexOf pat (u @ s) = map_option (\<lambda>n. n + length u) (indexOf pat s)"
  using assms(2)
proof (induction u)
  case Nil
  then show ?case by (simp add: option.map_ident)
next
  case (Cons c u)
  have here: "\<not> prefix pat ((c # u) @ s)" using Cons.prems by force
  have "\<forall>k<length u. \<not> prefix pat (drop k u @ s)"
  proof (intro allI impI)
    fix k assume "k < length u"
    then have "Suc k < length (c # u)" by simp
    with Cons.prems have "\<not> prefix pat (drop (Suc k) (c # u) @ s)" by blast
    then show "\<not> prefix pat (drop k u @ s)" by simp
  qed
  from Cons.IH [OF this] here show ?case
    by (simp add: option.map_comp comp_def)
qed

lemma render_head:
  assumes "prefix (c # w) (render R)"
  shows "(\<exists>R'. R = Ch c # R' \<and> prefix w (render R')) \<or> (\<exists>j R'. R = Tk j # R' \<and> c = CHR ''_'')"
proof (cases R)
  case Nil
  with assms show ?thesis by simp
next
  case (Cons x R')
  with assms show ?thesis by (cases x) (auto simp: token_unfold)
qed

lemma render_head_char:
  "prefix (c # w) (render R) \<Longrightarrow> c \<noteq> CHR ''_'' \<Longrightarrow> \<exists>R'. R = Ch c # R' \<and> prefix w (render R')"
  using render_head by blast

lemma no_digits_after_PH:
  assumes "no_token_text (expand originals R)" and "isDigit d"
  shows "\<not> prefix (CHR ''P'' # CHR ''H'' # d # w) (render R)"
proof
  assume p: "prefix (CHR ''P'' # CHR ''H'' # d # w) (render R)"
  from render_head_char [OF p] obtain R1 where R: "R = Ch (CHR ''P'') # R1"
    and p1: "prefix (CHR ''H'' # d # w) (render R1)" by auto
  from render_head_char [OF p1] obtain R2 where R1: "R1 = Ch (CHR ''H'') # R2"
    and p2: "prefix (d # w) (render R2)" by auto
  from render_head_char [OF p2] isDigit_not_underscore [OF assms(2)]
  obtain R3 where R2: "R2 = Ch d # R3" by auto
  from assms R R1 R2 show False by simp
qed

lemma no_token_after_underscores:
  assumes "no_token_text (expand originals R)"
  shows "\<not> prefix (CHR ''P'' # CHR ''H'' # digits i @ ''__'') (render R)"
proof -
  obtain d ds where d: "digits i = d # ds" using digits_nonempty [of i] by (cases "digits i") auto
  with digits_isDigit [of i] have "isDigit d" by simp
  from no_digits_after_PH [OF assms this] d show ?thesis by simp
qed

lemma expand_tl: "no_token_text (expand originals (x # R)) \<Longrightarrow> no_token_text (expand originals R)"
  by (cases x) (auto dest: no_token_text_tl no_token_text_suffix)

lemma no_token_after_underscore:
  assumes "no_token_text (expand originals R)"
  shows "\<not> prefix (CHR ''_'' # CHR ''P'' # CHR ''H'' # digits i @ ''__'') (render R)"
proof
  assume p: "prefix (CHR ''_'' # CHR ''P'' # CHR ''H'' # digits i @ ''__'') (render R)"
  from render_head [OF p] show False
  proof (elim disjE exE conjE)
    fix R' assume R: "R = Ch CHR ''_'' # R'"
      and p': "prefix (CHR ''P'' # CHR ''H'' # digits i @ ''__'') (render R')"
    from assms have "no_token_text (expand originals R')" unfolding R by (rule expand_tl)
    with p' show False using no_token_after_underscores by blast
  next
    fix j R' assume "R = Tk j # R'"
    with p show False by (simp add: token_unfold)
  qed
qed

lemma no_token_at_char:
  assumes "no_token_text (expand originals (Ch c # R))"
  shows "\<not> prefix (token i) (c # render R)"
proof -
  from assms have "no_token_text (expand originals R)" by (rule expand_tl)
  from no_token_after_underscore [OF this, of i] show ?thesis
    by (auto simp: token_unfold)
qed

lemma no_token_inside_token:
  assumes safe: "no_token_text (expand originals R)" and ne: "i \<noteq> j" and k: "k < length (token j)"
  shows "\<not> prefix (token i) (drop k (token j) @ render R)"
proof -
  let ?ds = "digits j"
  have len: "length (token j) = 6 + length ?ds" by (simp add: token_def)
  consider "k = 0" | "k = 1" | "k = 2" | "k = 3" | m where "k = 4 + m" "m < length ?ds"
    | "k = 4 + length ?ds" | "k = 5 + length ?ds"
    using k len by atomize_elim presburger
  then show ?thesis
  proof cases
    case 1
    show ?thesis
    proof
      assume "prefix (token i) (drop k (token j) @ render R)"
      with 1 have "prefix (digits i @ CHR ''_'' # ''_'') (?ds @ CHR ''_'' # (CHR ''_'' # render R))"
        by (simp add: token_unfold)
      from digit_runs_equal [OF digits_isDigit digits_isDigit this] ne show False
        by (auto dest: digits_inj)
    qed
  next
    case 2
    then show ?thesis by (simp add: token_unfold)
  next
    case 3
    then show ?thesis by (simp add: token_unfold)
  next
    case 4
    then show ?thesis by (simp add: token_unfold numeral_3_eq_3)
  next
    case (5 m)
    then obtain d r where d: "drop m ?ds = d # r" by (cases "drop m ?ds") auto
    then have "d \<in> set ?ds" by (metis in_set_dropD list.set_intros(1))
    with digits_isDigit [of j] have "isDigit d" by (simp add: list_all_iff)
    then have "d \<noteq> CHR ''_''" by (rule isDigit_not_underscore)
    moreover have "drop k (token j) = d # r @ ''__''"
      using 5 d by (simp add: token_unfold numeral_eq_Suc)
    ultimately show ?thesis by (simp add: token_unfold)
  next
    case 6
    then have "drop k (token j) = ''__''" by (simp add: token_unfold numeral_eq_Suc)
    then show ?thesis
      using no_token_after_underscores [OF safe, of i] by (simp add: token_unfold)
  next
    case 7
    then have "drop k (token j) = ''_''" by (simp add: token_unfold numeral_eq_Suc)
    then show ?thesis
      using no_token_after_underscore [OF safe, of i] by (simp add: token_unfold)
  qed
qed

lemma indexOf_here: "prefix pat s \<Longrightarrow> indexOf pat s = Some 0"
  by (cases s) auto

lemma indexOf_token_here: "indexOf (token i) (token i @ s) = Some 0"
  by (rule indexOf_here) simp

lemma indexOf_render:
  assumes "no_token_text (expand originals T)"
  shows "indexOf (token i) (render T) =
     (if Tk i \<in> set T then Some (length (render (takeWhile (\<lambda>x. x \<noteq> Tk i) T))) else None)"
  using assms
proof (induction T)
  case Nil
  then show ?case by (simp add: token_nonempty)
next
  case (Cons x T)
  from Cons.prems have safe: "no_token_text (expand originals T)" by (rule expand_tl)
  note IH = Cons.IH [OF safe]
  show ?case
  proof (cases x)
    case (Ch c)
    have "\<forall>k<length [c]. \<not> prefix (token i) (drop k [c] @ render T)"
      using no_token_at_char [of originals c T i] Cons.prems Ch by simp
    from indexOf_skip [OF token_nonempty this] IH Ch show ?thesis by auto
  next
    case (Tk j)
    show ?thesis
    proof (cases "j = i")
      case True
      with Tk show ?thesis by (simp add: indexOf_token_here)
    next
      case False
      then have "\<forall>k<length (token j). \<not> prefix (token i) (drop k (token j) @ render T)"
        using no_token_inside_token [OF safe, of i j] by blast
      from indexOf_skip [OF token_nonempty this] IH Tk False show ?thesis by auto
    qed
  qed
qed

subsection \<open>Restoring a text of characters and tokens\<close>

lemma getSubstitution_plain:
  "plain_replacement replaceValue \<Longrightarrow> getSubstitution matched preceding following replaceValue = replaceValue"
  by (induction replaceValue rule: plain_replacement.induct) auto

lemma js_replace_token_present:
  assumes "no_token_text (expand originals (A @ Tk i # B))" and "Tk i \<notin> set A"
    and "plain_replacement original"
  shows "js_replace (render (A @ Tk i # B)) (token i) original = render (A @ map Ch original @ B)"
proof -
  have tw: "takeWhile (\<lambda>x. x \<noteq> Tk i) (A @ Tk i # B) = A"
    using assms(2) by (induction A) auto
  have "indexOf (token i) (render (A @ Tk i # B)) = Some (length (render A))"
    using indexOf_render [OF assms(1), of i] tw by simp
  then show ?thesis
    by (simp add: js_replace_def getSubstitution_plain [OF assms(3)])
qed

lemma js_replace_token_absent:
  assumes "no_token_text (expand originals T)" and "Tk i \<notin> set T"
  shows "js_replace (render T) (token i) original = render T"
  using indexOf_render [OF assms(1), of i] assms(2) by (simp add: js_replace_def)

lemma toks_append [simp]: "toks (A @ B) = toks A @ toks B"
  by (induction A rule: toks.induct) simp_all

lemma toks_chars [simp]: "toks (map Ch s) = []"
  by (induction s) simp_all

lemma toks_set: "i \<in> set (toks T) \<longleftrightarrow> Tk i \<in> set T"
  by (induction T rule: toks.induct) auto

lemma expand_update_absent:
  "Tk i \<notin> set T \<Longrightarrow> expand (originals(i \<mapsto> original)) T = expand originals T"
  by (induction T rule: toks.induct) auto

lemma expand_empty: "expand (\<lambda>i. None) T = render T"
  by (induction T rule: toks.induct) simp_all

lemma restore_Cons:
  "restorePlaceholders s ((tok, original) # phs) = restorePlaceholders (js_replace s tok original) phs"
  by (simp add: restorePlaceholders_def)

lemma restore_render:
  assumes "distinct (map fst E)" and "distinct (toks T)"
    and "no_token_text (expand (map_of E) T)"
    and "\<forall>(i, original)\<in>set E. plain_replacement original"
  shows "restorePlaceholders (render T) (map (\<lambda>(i, original). (token i, original)) E) = expand (map_of E) T"
  using assms
proof (induction E arbitrary: T)
  case Nil
  then show ?case by (simp add: restorePlaceholders_def expand_empty)
next
  case (Cons e E)
  obtain i original where e: "e = (i, original)" by (cases e)
  from Cons.prems(1) e have dE: "distinct (map fst E)" and fresh: "i \<notin> fst ` set E" by auto
  from Cons.prems(4) e have plain: "plain_replacement original"
    and plains: "\<forall>(i, original)\<in>set E. plain_replacement original" by auto
  have mo: "map_of (e # E) = (map_of E)(i \<mapsto> original)" by (simp add: e)
  note safe = Cons.prems(3)
  show ?case
  proof (cases "Tk i \<in> set T")
    case False
    have same: "expand (map_of (e # E)) T = expand (map_of E) T"
      unfolding mo using False by (rule expand_update_absent)
    have "restorePlaceholders (render T) (map (\<lambda>(i, original). (token i, original)) (e # E)) =
        restorePlaceholders (render T) (map (\<lambda>(i, original). (token i, original)) E)"
      by (simp add: e restore_Cons js_replace_token_absent [OF safe False])
    also have "\<dots> = expand (map_of E) T"
    proof (rule Cons.IH [OF dE Cons.prems(2) _ plains])
      show "no_token_text (expand (map_of E) T)" using safe unfolding same .
    qed
    finally show ?thesis unfolding same .
  next
    case True
    then obtain A B where T: "T = A @ Tk i # B" and A: "Tk i \<notin> set A"
      by (meson split_list_first)
    from Cons.prems(2) T have B: "Tk i \<notin> set B" and dAB: "distinct (toks (A @ map Ch original @ B))"
      by (auto simp: toks_set)
    have same: "expand (map_of E) (A @ map Ch original @ B) = expand (map_of (e # E)) T"
      unfolding mo T using A B by (simp add: expand_update_absent)
    have safe1: "no_token_text (expand (map_of E) (A @ map Ch original @ B))"
      using safe unfolding same .
    have "restorePlaceholders (render T) (map (\<lambda>(i, original). (token i, original)) (e # E)) =
        restorePlaceholders (render (A @ map Ch original @ B)) (map (\<lambda>(i, original). (token i, original)) E)"
      using js_replace_token_present [OF safe [unfolded T] A plain]
      by (simp add: e restore_Cons T)
    also have "\<dots> = expand (map_of E) (A @ map Ch original @ B)"
      by (rule Cons.IH [OF dE dAB safe1 plains])
    finally show ?thesis unfolding same .
  qed
qed

subsection \<open>What one pass of replacement does to a text of characters and tokens\<close>

lemma strip_head: "strip lit (c # cs) = Some r \<Longrightarrow> lit \<noteq> [] \<Longrightarrow> c = hd lit"
  by (cases lit) (auto simp: strip_def split: if_splits)

lemma match_first: "match_at p (c # cs) = Some x \<Longrightarrow> \<not> tokchar c"
proof (cases p)
  case DoubleBrace
  assume "match_at p (c # cs) = Some x"
  with DoubleBrace obtain r where "strip ''{{'' (c # cs) = Some r" by (auto split: option.splits)
  from strip_head [OF this] show ?thesis by (simp add: tokchar_def isDigit_def)
next
  case Brace
  assume "match_at p (c # cs) = Some x"
  with Brace obtain r where "strip ''{'' (c # cs) = Some r" by (auto split: option.splits)
  from strip_head [OF this] show ?thesis by (simp add: tokchar_def isDigit_def)
next
  case Positional
  assume "match_at p (c # cs) = Some x"
  with Positional obtain r where "strip ''%'' (c # cs) = Some r" by (auto split: option.splits)
  from strip_head [OF this] show ?thesis by (simp add: tokchar_def isDigit_def)
next
  case Printf
  assume "match_at p (c # cs) = Some x"
  with Printf obtain r where "strip ''%'' (c # cs) = Some r" by (auto split: option.splits)
  from strip_head [OF this] show ?thesis by (simp add: tokchar_def isDigit_def)
next
  case Template
  assume "match_at p (c # cs) = Some x"
  with Template obtain r where "strip ''${'' (c # cs) = Some r" by (auto split: option.splits)
  from strip_head [OF this] show ?thesis by (simp add: tokchar_def isDigit_def)
next
  case Nested
  assume "match_at p (c # cs) = Some x"
  with Nested obtain r where "strip ''$t('' (c # cs) = Some r" by (auto split: option.splits)
  from strip_head [OF this] show ?thesis by (simp add: tokchar_def isDigit_def)
qed

lemma name_then_last:
  "name_then opening closing s = Some (m, rest) \<Longrightarrow> closing \<noteq> [] \<Longrightarrow> last m = last closing"
  by (auto simp: name_then_def split: list.splits if_splits option.splits)

lemma isConversion_not_tokchar: "isConversion c \<Longrightarrow> \<not> tokchar c"
  by (auto simp: isConversion_def tokchar_def isDigit_def)

lemma match_last: "match_at p s = Some (m, rest) \<Longrightarrow> \<not> tokchar (last m)"
proof (cases p)
  case DoubleBrace
  assume "match_at p s = Some (m, rest)"
  with DoubleBrace show ?thesis
    by (auto split: option.splits dest!: name_then_last simp: tokchar_def isDigit_def)
next
  case Brace
  assume "match_at p s = Some (m, rest)"
  with Brace show ?thesis
    by (auto split: option.splits dest!: name_then_last simp: tokchar_def isDigit_def)
next
  case Positional
  assume "match_at p s = Some (m, rest)"
  with Positional show ?thesis
    by (auto split: option.splits if_splits list.splits dest: isConversion_not_tokchar)
next
  case Printf
  assume "match_at p s = Some (m, rest)"
  with Printf show ?thesis
    by (auto split: option.splits if_splits list.splits dest: isConversion_not_tokchar)
next
  case Template
  assume "match_at p s = Some (m, rest)"
  with Template show ?thesis
    by (auto split: option.splits dest!: name_then_last simp: tokchar_def isDigit_def)
next
  case Nested
  assume "match_at p s = Some (m, rest)"
  with Nested show ?thesis
    by (auto split: option.splits if_splits simp: tokchar_def isDigit_def)
qed

lemma render_Nil: "render T = [] \<longleftrightarrow> T = []"
proof (cases T)
  case Nil
  then show ?thesis by simp
next
  case (Cons x R)
  then show ?thesis by (cases x) (simp_all add: token_nonempty)
qed

lemma items_of_match:
  assumes "m @ rest = render T" and "no_token_text m" and "m = [] \<or> \<not> tokchar (last m)"
  shows "\<exists>R. T = map Ch m @ R \<and> rest = render R"
  using assms
proof (induction T arbitrary: m)
  case Nil
  then show ?case by simp
next
  case (Cons x T)
  show ?case
  proof (cases m)
    case Nil
    with Cons.prems show ?thesis by simp
  next
    case m: (Cons a m')
    show ?thesis
    proof (cases x)
      case (Ch c)
      with Cons.prems m have eq: "m' @ rest = render T" and a: "a = c" by simp_all
      have safe: "no_token_text m'" using Cons.prems(2) m by (auto dest: no_token_text_tl)
      have lst: "m' = [] \<or> \<not> tokchar (last m')" using Cons.prems(3) m by (cases m') auto
      from Cons.IH [OF eq safe lst] obtain R where "T = map Ch m' @ R" "rest = render R" by blast
      with Ch m a show ?thesis by simp
    next
      case (Tk j)
      with Cons.prems(1) have "m @ rest = token j @ render T" by simp
      then obtain us where "(m = token j @ us \<and> us @ rest = render T) \<or> (m @ us = token j \<and> rest = us @ render T)"
        by (auto simp: append_eq_append_conv2)
      then show ?thesis
      proof
        assume "m = token j @ us \<and> us @ rest = render T"
        with Cons.prems(2) token_has_token_text [of j us] show ?thesis by simp
      next
        assume h: "m @ us = token j \<and> rest = us @ render T"
        have "last m \<in> set (token j)"
          using h m by (metis append_is_Nil_conv in_set_conv_decomp last_in_set list.distinct(1) set_append UnI1)
        with token_tokchars [of j] have "tokchar (last m)" by (simp add: list_all_iff)
        with Cons.prems(3) m show ?thesis by simp
      qed
    qed
  qed
qed

lemma expand_cong: "(\<forall>i\<in>set (toks T). f i = g i) \<Longrightarrow> expand f T = expand g T"
  by (induction T rule: toks.induct) simp_all

lemma map_of_append_left: "k \<in> fst ` set E \<Longrightarrow> map_of (E @ E') k = map_of E k"
  by (simp add: map_add_dom_app_simps(1) dom_map_of_conv_image_fst)

lemma map_set_token_fresh:
  assumes "map fst E = [0..<idx]"
  shows "map_set (token idx) m (map (\<lambda>(i, original). (token i, original)) E) =
         map (\<lambda>(i, original). (token i, original)) (E @ [(idx, m)])"
proof -
  have "token idx \<notin> fst ` set (map (\<lambda>(i, original). (token i, original)) E)"
  proof
    assume "token idx \<in> fst ` set (map (\<lambda>(i, original). (token i, original)) E)"
    then obtain i original where "(i, original) \<in> set E" and "token idx = token i" by auto
    then have "idx \<in> set (map fst E)" by (force dest: token_inj)
    with assms show False by simp
  qed
  then show ?thesis by (simp add: map_set_fresh)
qed

lemma replace_pattern_state:
  "replace_pattern p s idx phs = (out, idx', phs') \<Longrightarrow>
   phs = map (\<lambda>(i, original). (token i, original)) E \<Longrightarrow> map fst E = [0..<idx] \<Longrightarrow>
   \<exists>E'. phs' = map (\<lambda>(i, original). (token i, original)) (E @ E') \<and> map fst (E @ E') = [0..<idx']"
proof (induction p s idx phs arbitrary: out idx' phs' E rule: replace_pattern.induct)
  case (1 p idx placeholders)
  then show ?case by (intro exI [of _ "[]"]) simp
next
  case (2 p c cs idx placeholders)
  show ?case
  proof (cases "match_at p (c # cs)")
    case None
    with "2.prems"(1) obtain out1 where run: "replace_pattern p cs idx placeholders = (out1, idx', phs')"
      by (auto split: prod.splits)
    from "2.IH"(1) [OF None run "2.prems"(2,3)] show ?thesis .
  next
    case (Some x)
    obtain m rest where x: "x = (m, rest)" by (cases x)
    with "2.prems"(1) Some obtain out1 where
      run: "replace_pattern p rest (idx + 1) (map_set (token idx) m placeholders) = (out1, idx', phs')"
      by (auto split: prod.splits)
    have st: "map_set (token idx) m placeholders = map (\<lambda>(i, original). (token i, original)) (E @ [(idx, m)])"
      unfolding "2.prems"(2) using "2.prems"(3) by (rule map_set_token_fresh)
    have keys: "map fst (E @ [(idx, m)]) = [0..<idx + 1]" using "2.prems"(3) by simp
    from "2.IH"(2) [OF Some x [symmetric] run st keys] obtain E' where
      "phs' = map (\<lambda>(i, original). (token i, original)) ((E @ [(idx, m)]) @ E')"
      "map fst ((E @ [(idx, m)]) @ E') = [0..<idx']" by blast
    then show ?thesis by (intro exI [of _ "(idx, m) # E'"]) simp
  qed
qed

lemma replace_pattern_items:
  assumes "replace_pattern p s idx phs = (out, idx', phs')"
    and "phs = entries E" and "map fst E = [0..<idx]"
    and "s = u @ render T" and "list_all tokchar u"
    and "\<forall>i\<in>set (toks T). i < idx" and "distinct (toks T)"
    and "\<forall>(k, original)\<in>set phs'. no_token_text original"
  shows "\<exists>T' E'. out = u @ render T' \<and> phs' = entries (E @ E') \<and> map fst (E @ E') = [0..<idx'] \<and>
           set (toks T') \<subseteq> set (toks T) \<union> {idx..<idx'} \<and> distinct (toks T') \<and>
           expand (map_of (E @ E')) T' = expand (map_of E) T"
  using assms
proof (induction p s idx phs arbitrary: out idx' phs' E u T rule: replace_pattern.induct)
  case (1 p idx placeholders)
  then have "u = []" and "T = []" by (simp_all add: render_Nil)
  with 1 show ?case by (intro exI [of _ "[]"]) simp
next
  case (2 p c cs idx placeholders)
  note run = "2.prems"(1) and phs = "2.prems"(2) and keys = "2.prems"(3)
    and safe = "2.prems"(8)
  have star: "\<exists>T' E'. out = u1 @ render T' \<and> phs' = entries (E @ E') \<and> map fst (E @ E') = [0..<idx'] \<and>
           set (toks T') \<subseteq> set (toks T1) \<union> {idx..<idx'} \<and> distinct (toks T') \<and>
           expand (map_of (E @ E')) T' = expand (map_of E) T1"
    if s: "c # cs = u1 @ render T1" and ne: "u1 \<noteq> []" and tc: "list_all tokchar u1"
      and lt: "\<forall>i\<in>set (toks T1). i < idx" and d: "distinct (toks T1)" for u1 T1
  proof -
    from ne obtain u2 where u1: "u1 = c # u2" using s by (cases u1) auto
    with tc have "tokchar c" and tc2: "list_all tokchar u2" by simp_all
    then have none: "match_at p (c # cs) = None"
      using match_first [of p c cs] by (cases "match_at p (c # cs)") auto
    with run obtain out1 where run1: "replace_pattern p cs idx placeholders = (out1, idx', phs')"
      and out: "out = c # out1" by (auto split: prod.splits)
    have cs: "cs = u2 @ render T1" using s u1 by simp
    from "2.IH"(1) [OF none run1 phs keys cs tc2 lt d safe] out u1 show ?thesis by auto
  qed
  show ?case
  proof (cases u)
    case (Cons a u')
    then show ?thesis
      using star [OF "2.prems"(4) _ "2.prems"(5) "2.prems"(6) "2.prems"(7)] by simp
  next
    case Nil
    with "2.prems"(4) have s: "c # cs = render T" by simp
    show ?thesis
    proof (cases T)
      case Nil
      with s show ?thesis by simp
    next
      case (Cons x R)
      have ltR: "\<forall>i\<in>set (toks R). i < idx" and dR: "distinct (toks R)"
        using "2.prems"(6,7) Cons by (cases x; simp)+
      show ?thesis
      proof (cases x)
        case (Tk j)
        with Cons s have s1: "c # cs = token j @ render R" by simp
        from "2.prems"(6,7) Cons Tk have j: "j < idx" "j \<notin> set (toks R)" by simp_all
        from star [OF s1 token_nonempty token_tokchars ltR dR]
        obtain T' E' where out: "out = token j @ render T'" and phs': "phs' = entries (E @ E')"
          and keys': "map fst (E @ E') = [0..<idx']"
          and sub: "set (toks T') \<subseteq> set (toks R) \<union> {idx..<idx'}" and d': "distinct (toks T')"
          and ex: "expand (map_of (E @ E')) T' = expand (map_of E) R" by blast
        from j keys have "j \<in> fst ` set E" by (metis atLeastLessThan_iff atLeast_upt set_map set_upt zero_le)
        then have mo: "map_of (E @ E') j = map_of E j" by (rule map_of_append_left)
        have "j \<notin> set (toks T')" using sub j by auto
        with out phs' keys' sub d' ex mo Nil Cons Tk show ?thesis
          by (intro exI [of _ "Tk j # T'"] exI [of _ E']) auto
      next
        case (Ch c')
        with Cons s have c: "c' = c" and cs: "cs = render R" by simp_all
        show ?thesis
        proof (cases "match_at p (c # cs)")
          case None
          with run obtain out1 where run1: "replace_pattern p cs idx placeholders = (out1, idx', phs')"
            and out: "out = c # out1" by (auto split: prod.splits)
          have cs0: "cs = [] @ render R" using cs by simp
          from "2.IH"(1) [OF None run1 phs keys cs0 _ ltR dR safe]
          obtain T' E' where "out1 = render T'" and "phs' = entries (E @ E')"
            and "map fst (E @ E') = [0..<idx']"
            and "set (toks T') \<subseteq> set (toks R) \<union> {idx..<idx'}" and "distinct (toks T')"
            and "expand (map_of (E @ E')) T' = expand (map_of E) R" by auto
          with out Nil Cons Ch c show ?thesis
            by (intro exI [of _ "Ch c # T'"] exI [of _ E']) auto
        next
          case (Some x)
          obtain m rest where x: "x = (m, rest)" by (cases x)
          with run Some obtain out1 where
            run1: "replace_pattern p rest (idx + 1) (map_set (token idx) m placeholders) = (out1, idx', phs')"
            and out: "out = token idx @ out1" by (auto split: prod.splits)
          let ?E1 = "E @ [(idx, m)]"
          have st: "map_set (token idx) m placeholders = entries ?E1"
            unfolding phs entries_def using keys by (rule map_set_token_fresh)
          have keys1: "map fst ?E1 = [0..<idx + 1]" using keys by simp
          from replace_pattern_state [OF run1 st [unfolded entries_def] keys1]
          obtain E0 where "phs' = entries (?E1 @ E0)" by (auto simp: entries_def)
          then have "(token idx, m) \<in> set phs'" by (simp add: entries_def)
          with safe have safe_m: "no_token_text m" by auto
          from Some x have ms: "match_at p (c # cs) = Some (m, rest)" by simp
          from match_at_Some [OF ms] have split: "m @ rest = render T" and mne: "m \<noteq> []"
            using s by simp_all
          from match_last [OF ms] have lastm: "m = [] \<or> \<not> tokchar (last m)" by simp
          from items_of_match [OF split safe_m lastm]
          obtain R' where T: "T = map Ch m @ R'" and rest: "rest = render R'" by blast
          have toksR': "toks R' = toks T" using T by simp
          have lt1: "\<forall>i\<in>set (toks R'). i < idx + 1" using "2.prems"(6) toksR' by auto
          have d1: "distinct (toks R')" using "2.prems"(7) toksR' by simp
          have rest0: "rest = [] @ render R'" using rest by simp
          from "2.IH"(2) [OF Some x [symmetric] run1 st keys1 rest0 _ lt1 d1 safe]
          obtain T' E' where out1: "out1 = render T'" and phs': "phs' = entries (?E1 @ E')"
            and keys': "map fst (?E1 @ E') = [0..<idx']"
            and sub: "set (toks T') \<subseteq> set (toks R') \<union> {idx + 1..<idx'}" and d': "distinct (toks T')"
            and ex: "expand (map_of (?E1 @ E')) T' = expand (map_of ?E1) R'" by auto
          have "length (map fst (?E1 @ E')) = idx'" using keys' by simp
          moreover have "length (map fst E) = idx" using keys by simp
          ultimately have idx': "idx < idx'" by simp
          have notin: "idx \<notin> set (toks T')" using sub "2.prems"(6) toksR' by auto
          have "idx \<notin> fst ` set E" using keys by (metis atLeastLessThan_iff less_irrefl set_map set_upt)
          then have "map_of E idx = None" by (simp add: map_of_eq_None_iff)
          then have "map_of ?E1 idx = Some m" by (simp add: map_add_def)
          moreover have "idx \<in> fst ` set ?E1" by simp
          ultimately have at_idx: "map_of (?E1 @ E') idx = Some m"
            using map_of_append_left [of idx ?E1 E'] by simp
          have "expand (map_of ?E1) R' = expand (map_of E) R'"
          proof (rule expand_cong, intro ballI)
            fix i assume "i \<in> set (toks R')"
            with "2.prems"(6) toksR' have "i < idx" by simp
            with keys have "i \<in> fst ` set E"
              by (metis atLeastLessThan_iff atLeast_upt set_map set_upt zero_le)
            then show "map_of ?E1 i = map_of E i" by (rule map_of_append_left)
          qed
          with ex have ex': "expand (map_of (?E1 @ E')) T' = expand (map_of E) R'" by simp
          have "out = [] @ render (Tk idx # T')" using out out1 by simp
          moreover have "phs' = entries (E @ ((idx, m) # E'))" using phs' by simp
          moreover have "map fst (E @ ((idx, m) # E')) = [0..<idx']" using keys' by simp
          moreover have "set (toks (Tk idx # T')) \<subseteq> set (toks T) \<union> {idx..<idx'}"
            using sub toksR' idx' by auto
          moreover have "distinct (toks (Tk idx # T'))" using d' notin by simp
          moreover have "expand (map_of (E @ ((idx, m) # E'))) (Tk idx # T') = expand (map_of E) T"
            using ex' at_idx T by simp
          ultimately show ?thesis unfolding Nil by blast
        qed
      qed
    qed
  qed
qed

lemma protect_loop_state:
  "protect_loop ps s idx phs = (out, idx', phs') \<Longrightarrow> phs = entries E \<Longrightarrow> map fst E = [0..<idx] \<Longrightarrow>
   \<exists>E'. phs' = entries (E @ E') \<and> map fst (E @ E') = [0..<idx']"
proof (induction ps arbitrary: s idx phs E)
  case Nil
  then show ?case by (intro exI [of _ "[]"]) simp
next
  case (Cons p ps)
  obtain s1 idx1 phs1 where pass: "replace_pattern p s idx phs = (s1, idx1, phs1)"
    by (cases "replace_pattern p s idx phs") auto
  with Cons.prems(1) have loop: "protect_loop ps s1 idx1 phs1 = (out, idx', phs')" by simp
  from replace_pattern_state [OF pass Cons.prems(2) [unfolded entries_def] Cons.prems(3)]
  obtain E1 where phs1: "phs1 = entries (E @ E1)" and keys1: "map fst (E @ E1) = [0..<idx1]"
    by (auto simp: entries_def)
  from Cons.IH [OF loop phs1 keys1] obtain E2 where
    "phs' = entries ((E @ E1) @ E2)" "map fst ((E @ E1) @ E2) = [0..<idx']" by blast
  then show ?case by (intro exI [of _ "E1 @ E2"]) simp
qed

lemma protect_loop_items:
  assumes "protect_loop ps s idx phs = (out, idx', phs')"
    and "phs = entries E" and "map fst E = [0..<idx]"
    and "s = render T" and "\<forall>i\<in>set (toks T). i < idx" and "distinct (toks T)"
    and "\<forall>(k, original)\<in>set phs'. no_token_text original"
  shows "\<exists>T' E'. out = render T' \<and> phs' = entries (E @ E') \<and> map fst (E @ E') = [0..<idx'] \<and>
           distinct (toks T') \<and> expand (map_of (E @ E')) T' = expand (map_of E) T"
  using assms
proof (induction ps arbitrary: s idx phs E T)
  case Nil
  then show ?case by (intro exI [of _ T] exI [of _ "[]"]) simp
next
  case (Cons p ps)
  obtain s1 idx1 phs1 where pass: "replace_pattern p s idx phs = (s1, idx1, phs1)"
    by (cases "replace_pattern p s idx phs") auto
  with Cons.prems(1) have loop: "protect_loop ps s1 idx1 phs1 = (out, idx', phs')" by simp
  from replace_pattern_state [OF pass Cons.prems(2) [unfolded entries_def] Cons.prems(3)]
  obtain E0 where phs1_0: "phs1 = entries (E @ E0)" and keys1_0: "map fst (E @ E0) = [0..<idx1]"
    by (auto simp: entries_def)
  from protect_loop_state [OF loop phs1_0 keys1_0] obtain E9 where "phs' = entries ((E @ E0) @ E9)"
    by blast
  then have "set phs1 \<subseteq> set phs'" using phs1_0 by (auto simp: entries_def)
  with Cons.prems(7) have safe1: "\<forall>(k, original)\<in>set phs1. no_token_text original" by auto
  have s0: "s = [] @ render T" using Cons.prems(4) by simp
  from replace_pattern_items [OF pass Cons.prems(2,3) s0 _ Cons.prems(5,6) safe1]
  obtain T1 E1 where s1: "s1 = render T1" and phs1: "phs1 = entries (E @ E1)"
    and keys1: "map fst (E @ E1) = [0..<idx1]"
    and sub: "set (toks T1) \<subseteq> set (toks T) \<union> {idx..<idx1}" and d1: "distinct (toks T1)"
    and ex1: "expand (map_of (E @ E1)) T1 = expand (map_of E) T" by auto
  have "length (map fst (E @ E1)) = idx1" using keys1 by simp
  moreover have "length (map fst E) = idx" using Cons.prems(3) by simp
  ultimately have "idx \<le> idx1" by simp
  with sub Cons.prems(5) have lt1: "\<forall>i\<in>set (toks T1). i < idx1" by fastforce
  from Cons.IH [OF loop phs1 keys1 s1 lt1 d1 Cons.prems(7)]
  obtain T' E' where "out = render T'" "phs' = entries ((E @ E1) @ E')"
    "map fst ((E @ E1) @ E') = [0..<idx']" "distinct (toks T')"
    "expand (map_of ((E @ E1) @ E')) T' = expand (map_of (E @ E1)) T1" by blast
  with ex1 show ?case by (intro exI [of _ T'] exI [of _ "E1 @ E'"]) simp
qed

lemma protect_restore:
  assumes "no_token_text x"
    and "\<forall>(tok, original)\<in>set (placeholders (protectPlaceholders x)).
           no_token_text original \<and> plain_replacement original"
  shows "restorePlaceholders (text (protectPlaceholders x)) (placeholders (protectPlaceholders x)) = x"
proof -
  obtain out idx' phs' where loop: "protect_loop PLACEHOLDER_PATTERNS x 0 [] = (out, idx', phs')"
    by (cases "protect_loop PLACEHOLDER_PATTERNS x 0 []") auto
  then have pp: "protectPlaceholders x = \<lparr>text = out, placeholders = phs'\<rparr>"
    by (simp add: protectPlaceholders_def)
  with assms(2) have safe: "\<forall>(k, original)\<in>set phs'. no_token_text original"
    and plain: "\<forall>(k, original)\<in>set phs'. plain_replacement original" by auto
  have e0: "[] = entries []" by (simp add: entries_def)
  have x0: "x = render (map Ch x)" by simp
  from protect_loop_items [OF loop e0 _ x0 _ _ safe]
  obtain T' E' where out: "out = render T'" and phs': "phs' = entries E'"
    and keys: "map fst E' = [0..<idx']" and d: "distinct (toks T')"
    and ex: "expand (map_of E') T' = x" by auto
  have dE: "distinct (map fst E')" unfolding keys by simp
  have safe_x: "no_token_text (expand (map_of E') T')" unfolding ex by (rule assms(1))
  have plainE: "\<forall>(i, original)\<in>set E'. plain_replacement original"
    using plain unfolding phs' entries_def by auto
  from restore_render [OF dE d safe_x plainE] show ?thesis
    unfolding pp out phs' entries_def ex by simp
qed

text \<open>
  Claim C1, as the code has it. Let \<open>x\<close> be an input that nowhere has the letters
  \<^verbatim>\<open>PH\<close> followed by a digit, and let no placeholder recorded by \<open>protectPlaceholders x\<close>
  have them either (no match of a later pattern encloses a token put in for an earlier
  match), nor a dollar sign followed by a dollar sign, an ampersand, a backquote or a quote.
  Then restoring the protected text with the recorded placeholders gives \<open>x\<close>.
\<close>

theorem protect_restore_roundtrip:
  assumes "no_token_text x"
    and "\<forall>(tok, original)\<in>set (placeholders (protectPlaceholders x)).
           no_token_text original \<and> plain_replacement original"
  shows "restorePlaceholders (text (protectPlaceholders x)) (placeholders (protectPlaceholders x)) = x"
  using assms by (rule protect_restore)

theorem protect_restore_roundtrip_witness:
  "protectPlaceholders ''Hi {name}: %d of %1$s'' =
     \<lparr>text = ''Hi __PH0__: __PH2__ of __PH1__'',
      placeholders = [(''__PH0__'', ''{name}''), (''__PH1__'', ''%1$s''), (''__PH2__'', ''%d'')]\<rparr> \<and>
   no_token_text ''Hi {name}: %d of %1$s'' \<and>
   restorePlaceholders (text (protectPlaceholders ''Hi {name}: %d of %1$s''))
     (placeholders (protectPlaceholders ''Hi {name}: %d of %1$s'')) = ''Hi {name}: %d of %1$s''"
proof -
  have p: "protectPlaceholders ''Hi {name}: %d of %1$s'' =
     \<lparr>text = ''Hi __PH0__: __PH2__ of __PH1__'',
      placeholders = [(''__PH0__'', ''{name}''), (''__PH1__'', ''%1$s''), (''__PH2__'', ''%d'')]\<rparr>"
    by (simp add: placeholder_eval)
  have n: "no_token_text ''Hi {name}: %d of %1$s''" by simp
  have h: "\<forall>(tok, original)\<in>set (placeholders (protectPlaceholders ''Hi {name}: %d of %1$s'')).
      no_token_text original \<and> plain_replacement original"
    unfolding p by simp
  from protect_restore_roundtrip [OF n h] p n show ?thesis by blast
qed

text \<open>
  The claim as stated fails in three ways: on an input that already holds the text of a
  token, on an input where a match of a later pattern encloses an earlier match, and on a
  placeholder with a dollar sequence that \<^verbatim>\<open>replace\<close> expands.
\<close>

theorem protect_restore_counterexample:
  "restorePlaceholders (text (protectPlaceholders ''__PH0__ {a}'')) (placeholders (protectPlaceholders ''__PH0__ {a}''))
     = ''{a} __PH0__'' \<and>
   restorePlaceholders (text (protectPlaceholders ''${a{b}}'')) (placeholders (protectPlaceholders ''${a{b}}''))
     = ''${a__PH0__}'' \<and>
   restorePlaceholders (text (protectPlaceholders ''$t($$)'')) (placeholders (protectPlaceholders ''$t($$)''))
     = ''$t($)''"
  by (simp add: placeholder_eval)

text \<open>
  Claim C7, as the code has it. Let the text consist of characters and tokens, each token
  at most once and in any order, let every key of the map be a token, no token twice, and
  let no original have a dollar sign followed by a dollar sign, an ampersand, a backquote or
  a quote. If the text with every token replaced by its original nowhere has the letters
  \<^verbatim>\<open>PH\<close> followed by a digit, then \<open>restorePlaceholders\<close> returns exactly that text; a
  token of the map that does not occur in the text changes nothing.
\<close>

theorem restore_each_token_once:
  assumes "distinct (map fst E)" and "distinct (toks T)"
    and "no_token_text (expand (map_of E) T)"
    and "\<forall>(i, original)\<in>set E. plain_replacement original"
  shows "restorePlaceholders (render T) (entries E) = expand (map_of E) T"
  using restore_render [OF assms] by (simp add: entries_def)

theorem restore_each_token_once_witness:
  "restorePlaceholders ''__PH1__ pour __PH0__'' [(''__PH0__'', ''{n}''), (''__PH1__'', ''%s''), (''__PH2__'', ''%d'')]
     = ''%s pour {n}''"
proof -
  let ?E = "[(0, ''{n}''), (1, ''%s''), (2, ''%d'')]"
  let ?T = "[Tk 1] @ map Ch '' pour '' @ [Tk 0]"
  have t: "token 0 = ''__PH0__''" "token (Suc 0) = ''__PH1__''" "token 2 = ''__PH2__''"
    by (simp_all add: token_def digits.simps digit_char_def)
  have r: "render ?T = ''__PH1__ pour __PH0__''" by (simp add: t)
  have e: "entries ?E = [(''__PH0__'', ''{n}''), (''__PH1__'', ''%s''), (''__PH2__'', ''%d'')]"
    by (simp add: entries_def t)
  have x: "expand (map_of ?E) ?T = ''%s pour {n}''" by simp
  have "restorePlaceholders (render ?T) (entries ?E) = expand (map_of ?E) ?T"
    by (rule restore_each_token_once) (simp_all add: x)
  then show ?thesis unfolding r e x .
qed

text \<open>
  The claim as stated fails on a token that occurs twice: only its first occurrence is
  replaced. It also fails when the text after a moved token imitates the rest of a token.
\<close>

theorem restore_counterexample:
  "restorePlaceholders ''__PH0__ and __PH0__'' [(''__PH0__'', ''{n}'')] = ''{n} and __PH0__'' \<and>
   restorePlaceholders ''__PH1__PH0____PH0__'' [(''__PH0__'', ''{a}''), (''__PH1__'', ''%s'')]
     = ''__PH1{a}__PH0__''"
  by (simp add: placeholder_eval)

end
